theory Spec2Isabelle
  imports Complex_Main "HOL-Library.Word"
begin

unbundle bit_operations_syntax

section \<open>Hashing: \<open>cuckoohash_map.hpp\<close>, private static helpers\<close>

text \<open>
  \<open>size_type\<close> is a 64-bit unsigned integer and \<open>partial_t\<close> is \<open>uint8_t\<close>.
  A hashpower is a small count (the logarithm of the bucket count) and is kept as a
  natural number; \<open>size_type(1) << hp\<close> is defined by C++ only for \<open>hp < 64\<close>.
\<close>

type_synonym size_type = "64 word"
type_synonym partial_t = "8 word"

record hash_value =
  hash :: size_type
  partial :: partial_t

definition hashsize :: "nat \<Rightarrow> size_type" where
  "hashsize hp = push_bit hp 1"

definition hashmask :: "nat \<Rightarrow> size_type" where
  "hashmask hp = hashsize hp - 1"

definition partial_key :: "size_type \<Rightarrow> partial_t" where
  "partial_key h =
    (let hash_64bit = h;
         hash_32bit = ((ucast hash_64bit :: 32 word) XOR ucast (drop_bit 32 hash_64bit));
         hash_16bit = ((ucast hash_32bit :: 16 word) XOR ucast (drop_bit 16 hash_32bit));
         hash_8bit = ((ucast hash_16bit :: 8 word) XOR ucast (drop_bit 8 hash_16bit))
     in hash_8bit)"

definition index_hash :: "nat \<Rightarrow> size_type \<Rightarrow> size_type" where
  "index_hash hp hv = hv AND hashmask hp"

definition alt_index :: "nat \<Rightarrow> partial_t \<Rightarrow> size_type \<Rightarrow> size_type" where
  "alt_index hp p index =
    (let nonzero_tag = (ucast p :: size_type) + 1
     in (index XOR (nonzero_tag * 0xc6a4a7935bd1e995)) AND hashmask hp)"

text \<open>
  The partial tag as the specification words it: the hash folded by exclusive-or from 64
  bits to one byte, that is, the exclusive-or of its eight bytes.
\<close>

definition byte_of :: "size_type \<Rightarrow> nat \<Rightarrow> partial_t" where
  "byte_of h n = ucast (drop_bit (8 * n) h)"

definition xor_fold_spec :: "size_type \<Rightarrow> partial_t" where
  "xor_fold_spec h = foldr (\<lambda>n acc. byte_of h n XOR acc) [0..<8] 0"

section \<open>Data model\<close>

text \<open>
  A slot of a bucket holds an occupancy bit, a partial-key byte and raw storage for a
  key--value pair; the byte and the pair are read only while the slot is occupied, so a
  slot is \<open>None\<close> when free and \<open>Some (partial, key, value)\<close> when occupied.
  A bucket is the array of its \<open>SLOT_PER_BUCKET\<close> slots.
\<close>

type_synonym ('k, 'v) slot = "(partial_t \<times> 'k \<times> 'v) option"
type_synonym ('k, 'v) bucket = "('k, 'v) slot list"

definition occupied :: "('k, 'v) bucket \<Rightarrow> nat \<Rightarrow> bool" where
  "occupied b i = (b ! i \<noteq> None)"

definition slot_partial :: "('k, 'v) bucket \<Rightarrow> nat \<Rightarrow> partial_t" where
  "slot_partial b i = fst (the (b ! i))"

definition slot_key :: "('k, 'v) bucket \<Rightarrow> nat \<Rightarrow> 'k" where
  "slot_key b i = fst (snd (the (b ! i)))"

definition slot_mapped :: "('k, 'v) bucket \<Rightarrow> nat \<Rightarrow> 'v" where
  "slot_mapped b i = snd (snd (the (b ! i)))"

text \<open>
  A \<open>double\<close>: the values the comparisons of the code can tell apart. Only comparisons
  are modelled exactly; the one division of the code (\<open>load_factor\<close>) is a parameter.
\<close>

datatype double = NaN | NegInf | Finite real | PosInf

fun double_less :: "double \<Rightarrow> double \<Rightarrow> bool" where
  "double_less NaN _ = False"
| "double_less _ NaN = False"
| "double_less NegInf NegInf = False"
| "double_less NegInf _ = True"
| "double_less (Finite a) (Finite b) = (a < b)"
| "double_less (Finite a) PosInf = True"
| "double_less (Finite a) NegInf = False"
| "double_less PosInf _ = False"

text \<open>
  Of the seqlock word of a stripe, the element counter and the migrated bit. The epoch
  and the writer bit serve concurrent readers; a single thread on a quiescent table
  always finds the writer bit clear and the epoch unchanged.
\<close>

record seqlock =
  elem_counter :: int
  is_migrated :: bool

text \<open>
  The table: the bucket container with its hashpower, the lock container and the policy
  values. \<open>maximum_hashpower = None\<close> is the sentinel \<open>NO_MAXIMUM_HASHPOWER\<close>.
\<close>

record ('k, 'v) table =
  hashpower :: nat
  buckets :: "('k, 'v) bucket list"
  locks :: "seqlock list"
  minimum_load_factor :: double
  maximum_hashpower :: "nat option"

text \<open>
  Template arguments and what the table takes from headers outside the given sources:
  the slots per bucket, the type trait \<open>is_simple\<close>, the hash functor, the
  division of \<open>double\<close>s used by \<open>load_factor\<close>, the constant
  \<open>DEFAULT_MINIMUM_LOAD_FACTOR\<close> and the helper \<open>reserve_calc_for_slots\<close>.
  \<open>KeyEqual\<close> is \<open>std::equal_to\<close>, the default.
\<close>

record 'k config =
  slot_per_bucket :: nat
  is_simple :: bool
  hash_function :: "'k \<Rightarrow> size_type"
  double_div :: "int \<Rightarrow> nat \<Rightarrow> double"
  default_minimum_load_factor :: double
  reserve_calc :: "nat \<Rightarrow> nat"

definition kMaxNumLocksPow :: nat where
  "kMaxNumLocksPow = 16"

definition kMaxNumLocks :: size_type where
  "kMaxNumLocks = push_bit kMaxNumLocksPow 1"

definition MAX_BFS_PATH_LEN :: nat where
  "MAX_BFS_PATH_LEN = 5"

datatype error = InvalidArgument | KeyNotFound | LoadFactorTooLow | MaxHashpowerExceeded
  | AssertionFailed

subsection \<open>Table details\<close>

definition bucket_count :: "('k, 'v) table \<Rightarrow> nat" where
  "bucket_count t = length (buckets t)"

definition table_size :: "('k, 'v) table \<Rightarrow> int" where
  "table_size t = foldl (\<lambda>s lock. s + elem_counter lock) 0 (locks t)"

definition capacity :: "'k config \<Rightarrow> ('k, 'v) table \<Rightarrow> nat" where
  "capacity cfg t = bucket_count t * slot_per_bucket cfg"

definition load_factor :: "'k config \<Rightarrow> ('k, 'v) table \<Rightarrow> double" where
  "load_factor cfg t = double_div cfg (table_size t) (capacity cfg t)"

text \<open>The setter \<open>minimum_load_factor(mlf)\<close>: the outcome and the table it leaves.\<close>

definition set_minimum_load_factor ::
  "double \<Rightarrow> ('k, 'v) table \<Rightarrow> (error + unit) \<times> ('k, 'v) table" where
  "set_minimum_load_factor mlf t =
    (if double_less mlf (Finite 0) then (Inl InvalidArgument, t)
     else if double_less (Finite 1) mlf then (Inl InvalidArgument, t)
     else (Inr (), t\<lparr>minimum_load_factor := mlf\<rparr>))"

definition set_maximum_hashpower ::
  "nat option \<Rightarrow> ('k, 'v) table \<Rightarrow> (error + unit) \<times> ('k, 'v) table" where
  "set_maximum_hashpower mhp t =
    (if (case mhp of None \<Rightarrow> False | Some m \<Rightarrow> hashpower t > m)
     then (Inl InvalidArgument, t)
     else (Inr (), t\<lparr>maximum_hashpower := mhp\<rparr>))"


section \<open>Buckets and stripes\<close>

text \<open>\<open>setKV\<close> and \<open>eraseKV\<close> of the bucket container, on one bucket.\<close>

definition setKV ::
  "('k, 'v) bucket \<Rightarrow> nat \<Rightarrow> partial_t \<Rightarrow> 'k \<Rightarrow> 'v \<Rightarrow> ('k, 'v) bucket" where
  "setKV b slot p key val = b[slot := Some (p, key, val)]"

definition eraseKV :: "('k, 'v) bucket \<Rightarrow> nat \<Rightarrow> ('k, 'v) bucket" where
  "eraseKV b slot = b[slot := None]"

definition set_bucket ::
  "size_type \<Rightarrow> ('k, 'v) bucket \<Rightarrow> ('k, 'v) table \<Rightarrow> ('k, 'v) table" where
  "set_bucket i b t = t\<lparr>buckets := (buckets t)[unat i := b]\<rparr>"

definition get_bucket :: "('k, 'v) table \<Rightarrow> size_type \<Rightarrow> ('k, 'v) bucket" where
  "get_bucket t i = buckets t ! unat i"

definition add_counter :: "size_type \<Rightarrow> int \<Rightarrow> ('k, 'v) table \<Rightarrow> ('k, 'v) table" where
  "add_counter l d t =
    t\<lparr>locks := (locks t)[unat l :=
        (locks t ! unat l)\<lparr>elem_counter := elem_counter (locks t ! unat l) + d\<rparr>]\<rparr>"

definition set_migrated :: "size_type \<Rightarrow> bool \<Rightarrow> ('k, 'v) table \<Rightarrow> ('k, 'v) table" where
  "set_migrated l m t =
    t\<lparr>locks := (locks t)[unat l := (locks t ! unat l)\<lparr>is_migrated := m\<rparr>]\<rparr>"

definition hashed_key :: "'k config \<Rightarrow> 'k \<Rightarrow> hash_value" where
  "hashed_key cfg key =
    (let h = hash_function cfg key in \<lparr>hash = h, partial = partial_key h\<rparr>)"

definition lock_ind :: "size_type \<Rightarrow> size_type" where
  "lock_ind bucket_ind = bucket_ind AND (kMaxNumLocks - 1)"

datatype cuckoo_status = ok | failure | failure_key_not_found | failure_key_duplicated
  | failure_table_full | failure_under_expansion

text \<open>
  A table position (fields \<open>index\<close>, \<open>slot\<close>, \<open>status\<close>). The pointer
  \<open>bucket_\<close> of the code is the address of \<open>buckets_[index]\<close> whenever it is
  not null, so the index stands for it.
\<close>

record table_position =
  pos_index :: size_type
  pos_slot :: nat
  pos_status :: cuckoo_status

subsection \<open>Searching a bucket\<close>

function try_read_from_bucket_loop ::
  "'k config \<Rightarrow> ('k, 'v) bucket \<Rightarrow> partial_t \<Rightarrow> 'k \<Rightarrow> nat \<Rightarrow> int" where
  "try_read_from_bucket_loop cfg b p key i =
    (if i < slot_per_bucket cfg then
       (if \<not> occupied b i \<or> (\<not> is_simple cfg \<and> p \<noteq> slot_partial b i)
        then try_read_from_bucket_loop cfg b p key (i + 1)
        else if slot_key b i = key then int i
        else try_read_from_bucket_loop cfg b p key (i + 1))
     else - 1)"
  by pat_completeness auto
termination
  by (relation "measure (\<lambda>(cfg, b, p, key, i). slot_per_bucket cfg - i)") auto

declare try_read_from_bucket_loop.simps [simp del]

definition try_read_from_bucket ::
  "'k config \<Rightarrow> ('k, 'v) bucket \<Rightarrow> partial_t \<Rightarrow> 'k \<Rightarrow> int" where
  "try_read_from_bucket cfg b p key = try_read_from_bucket_loop cfg b p key 0"

definition cuckoo_find ::
  "'k config \<Rightarrow> ('k, 'v) table \<Rightarrow> 'k \<Rightarrow> partial_t \<Rightarrow> size_type \<Rightarrow> size_type
    \<Rightarrow> table_position" where
  "cuckoo_find cfg t key p i1 i2 =
    (let slot1 = try_read_from_bucket cfg (get_bucket t i1) p key in
     if slot1 \<noteq> - 1 then \<lparr>pos_index = i1, pos_slot = nat slot1, pos_status = ok\<rparr>
     else
       let slot2 = try_read_from_bucket cfg (get_bucket t i2) p key in
       if slot2 \<noteq> - 1 then \<lparr>pos_index = i2, pos_slot = nat slot2, pos_status = ok\<rparr>
       else \<lparr>pos_index = 0, pos_slot = 0, pos_status = failure_key_not_found\<rparr>)"

text \<open>\<open>try_find_insert_bucket\<close>: the boolean returned and the value left in \<open>slot\<close>.\<close>

function try_find_insert_bucket_loop ::
  "'k config \<Rightarrow> ('k, 'v) bucket \<Rightarrow> partial_t \<Rightarrow> 'k \<Rightarrow> nat \<Rightarrow> int \<Rightarrow> bool \<times> int" where
  "try_find_insert_bucket_loop cfg b p key i slot =
    (if i < slot_per_bucket cfg then
       (if occupied b i then
          (if \<not> is_simple cfg \<and> p \<noteq> slot_partial b i
           then try_find_insert_bucket_loop cfg b p key (i + 1) slot
           else if slot_key b i = key then (False, int i)
           else try_find_insert_bucket_loop cfg b p key (i + 1) slot)
        else try_find_insert_bucket_loop cfg b p key (i + 1) (int i))
     else (True, slot))"
  by pat_completeness auto
termination
  by (relation "measure (\<lambda>(cfg, b, p, key, i, slot). slot_per_bucket cfg - i)") auto

declare try_find_insert_bucket_loop.simps [simp del]

definition try_find_insert_bucket ::
  "'k config \<Rightarrow> ('k, 'v) bucket \<Rightarrow> partial_t \<Rightarrow> 'k \<Rightarrow> bool \<times> int" where
  "try_find_insert_bucket cfg b p key = try_find_insert_bucket_loop cfg b p key 0 (- 1)"

subsection \<open>Lazy migration of a stripe\<close>

definition need_to_move_elem ::
  "hash_value \<Rightarrow> nat \<Rightarrow> nat \<Rightarrow> size_type \<Rightarrow> size_type \<Rightarrow> bool" where
  "need_to_move_elem hv old_hp new_hp old_bucket_ind new_bucket_ind =
    (let old_ihash = index_hash old_hp (hash hv);
         old_ahash = alt_index old_hp (partial hv) old_ihash;
         new_ihash = index_hash new_hp (hash hv);
         new_ahash = alt_index new_hp (partial hv) new_ihash
     in (old_bucket_ind = old_ihash \<and> new_ihash = new_bucket_ind) \<or>
        (old_bucket_ind = old_ahash \<and> new_ahash = new_bucket_ind))"

text \<open>
  \<open>move_bucket\<close> takes the two buckets by reference; here they are given by their
  places in the bucket array, and the callback \<open>after_set\<close> acts on the table.
  Keys and values are nothrow-move-constructible, so a move cannot fail.
\<close>

definition move_bucket_step ::
  "'k config \<Rightarrow> nat \<Rightarrow> size_type \<Rightarrow> size_type \<Rightarrow> size_type
    \<Rightarrow> (nat \<Rightarrow> ('k, 'v) table \<Rightarrow> ('k, 'v) table)
    \<Rightarrow> nat \<Rightarrow> nat \<times> ('k, 'v) table \<Rightarrow> nat \<times> ('k, 'v) table" where
  "move_bucket_step cfg old_hp old_bucket_ind old_ref new_ref after_set old_bucket_slot st =
    (let new_bucket_slot = fst st; t = snd st;
         new_hp = old_hp + 1;
         new_bucket_ind = old_bucket_ind + hashsize old_hp;
         old_bucket = get_bucket t old_ref
     in if occupied old_bucket old_bucket_slot \<and>
           need_to_move_elem (hashed_key cfg (slot_key old_bucket old_bucket_slot))
             old_hp new_hp old_bucket_ind new_bucket_ind
        then (new_bucket_slot + 1,
              after_set old_bucket_slot
                (set_bucket new_ref
                  (setKV (get_bucket t new_ref) new_bucket_slot
                     (slot_partial old_bucket old_bucket_slot)
                     (slot_key old_bucket old_bucket_slot)
                     (slot_mapped old_bucket old_bucket_slot)) t))
        else (new_bucket_slot, t))"

definition move_bucket ::
  "'k config \<Rightarrow> nat \<Rightarrow> size_type \<Rightarrow> size_type \<Rightarrow> size_type
    \<Rightarrow> (nat \<Rightarrow> ('k, 'v) table \<Rightarrow> ('k, 'v) table)
    \<Rightarrow> ('k, 'v) table \<Rightarrow> ('k, 'v) table" where
  "move_bucket cfg old_hp old_bucket_ind old_ref new_ref after_set t =
    snd (fold (move_bucket_step cfg old_hp old_bucket_ind old_ref new_ref after_set)
           [0..<slot_per_bucket cfg] (0, t))"

function migrate_lock_loop ::
  "'k config \<Rightarrow> size_type \<Rightarrow> size_type \<Rightarrow> ('k, 'v) table \<Rightarrow> ('k, 'v) table" where
  "migrate_lock_loop cfg sz bucket_ind t =
    (if bucket_ind < drop_bit 1 sz then
       migrate_lock_loop cfg sz (bucket_ind + kMaxNumLocks)
         (move_bucket cfg (hashpower t - 1) bucket_ind
            bucket_ind (bucket_ind + hashsize (hashpower t - 1))
            (\<lambda>old_bucket_slot t'.
                set_bucket bucket_ind (eraseKV (get_bucket t' bucket_ind) old_bucket_slot) t')
            t)
     else t)"
  by pat_completeness auto

termination
proof (relation "measure (\<lambda>(cfg, sz, bucket_ind, t). unat (drop_bit 1 sz) - unat bucket_ind)")
  show "wf (measure (\<lambda>(cfg :: 'a config, sz :: size_type, bucket_ind :: size_type,
                        t :: ('a, 'b) table). unat (drop_bit 1 sz) - unat bucket_ind))"
    by simp
next
  fix cfg :: "'a config" and sz bucket_ind :: size_type and t :: "('a, 'b) table"
  assume less: "bucket_ind < drop_bit 1 sz"
  have "unat (drop_bit 1 sz) = unat sz div 2"
    by (simp add: unat_drop_bit_eq drop_bit_eq_div unat_div)
  moreover have "unat sz < 2 ^ 64"
    using unsigned_less[of sz] by simp
  ultimately have "unat (drop_bit 1 sz) < 2 ^ 63"
    by simp
  with less have "unat bucket_ind < 2 ^ 63"
    by (simp add: word_less_nat_alt)
  then have "unat (bucket_ind + kMaxNumLocks) = unat bucket_ind + 65536"
    by (simp add: kMaxNumLocks_def kMaxNumLocksPow_def unat_word_ariths)
  with less show "((cfg, sz, bucket_ind + kMaxNumLocks,
        move_bucket cfg (hashpower t - 1) bucket_ind bucket_ind
          (bucket_ind + hashsize (hashpower t - 1))
          (\<lambda>old_bucket_slot t'.
              set_bucket bucket_ind (eraseKV (get_bucket t' bucket_ind) old_bucket_slot) t')
          t),
       cfg, sz, bucket_ind, t)
      \<in> measure (\<lambda>(cfg, sz, bucket_ind, t). unat (drop_bit 1 sz) - unat bucket_ind)"
    by (simp add: word_less_nat_alt)
qed

declare migrate_lock_loop.simps [simp del]

definition migrate_lock :: "'k config \<Rightarrow> size_type \<Rightarrow> ('k, 'v) table \<Rightarrow> ('k, 'v) table" where
  "migrate_lock cfg l t = migrate_lock_loop cfg (of_nat (bucket_count t)) l t"

text \<open>
  \<open>lock_and_rehash\<close> returns the address of \<open>locks_[l]\<close>; the model returns the table
  it leaves, and the caller keeps \<open>l\<close>.
\<close>

definition lock_and_rehash :: "'k config \<Rightarrow> size_type \<Rightarrow> ('k, 'v) table \<Rightarrow> ('k, 'v) table" where
  "lock_and_rehash cfg l t =
    (if \<not> is_migrated (locks t ! unat l)
     then set_migrated l True (migrate_lock cfg l t)
     else t)"

text \<open>
  Nothing runs between a thread's reading of \<open>hashpower()\<close> and its call of
  \<open>check_hashpower\<close>, so on a quiescent table \<open>hashpower_changed\<close> is never thrown
  and the retry loop of \<open>snapshot_and_lock_two\<close> runs once.
\<close>

record TwoBuckets =
  tb_i1 :: size_type
  tb_i2 :: size_type
  tb_lock1 :: "size_type option"
  tb_lock2 :: "size_type option"

definition TwoBuckets_normal ::
  "size_type option \<Rightarrow> size_type option \<Rightarrow> size_type \<Rightarrow> size_type \<Rightarrow> TwoBuckets" where
  "TwoBuckets_normal lock1' lock2' i1' i2' =
    \<lparr>tb_i1 = i1', tb_i2 = i2', tb_lock1 = lock1',
     tb_lock2 = (if lock1' = lock2' then None else lock2')\<rparr>"

definition lock_one ::
  "'k config \<Rightarrow> nat \<Rightarrow> size_type \<Rightarrow> ('k, 'v) table \<Rightarrow> ('k, 'v) table" where
  "lock_one cfg hp i t = lock_and_rehash cfg (lock_ind i) t"

definition lock_two ::
  "'k config \<Rightarrow> nat \<Rightarrow> size_type \<Rightarrow> size_type \<Rightarrow> ('k, 'v) table
    \<Rightarrow> TwoBuckets \<times> ('k, 'v) table" where
  "lock_two cfg hp i1' i2' t =
    (let l1 = lock_ind i1'; l2 = lock_ind i2';
         l1s = (if l2 < l1 then l2 else l1);
         l2s = (if l2 < l1 then l1 else l2);
         t1 = lock_and_rehash cfg l1s t;
         t2 = (if l1s \<noteq> l2s then lock_and_rehash cfg l2s t1 else t1);
         lock2' = (if l1s \<noteq> l2s then Some l2s else None)
     in (TwoBuckets_normal (Some l1s) lock2' i1' i2', t2))"

text \<open>
  \<open>lock_three\<close>: the three stripe indices are sorted together with their places
  \<open>l2i\<close>; \<open>cur_locks\<close> holds the stripes taken, in sorted order, a repeated stripe as
  null; the returned pair is the \<open>TwoBuckets\<close> and the extra lock manager.
\<close>

definition sort_step ::
  "nat \<Rightarrow> nat \<Rightarrow> size_type list \<times> nat list \<Rightarrow> size_type list \<times> nat list" where
  "sort_step a b st =
    (let l = fst st; l2i = snd st in
     if l ! a < l ! b
     then (l[a := l ! b, b := l ! a], l2i[a := l2i ! b, b := l2i ! a])
     else (l, l2i))"

definition lock_three ::
  "'k config \<Rightarrow> nat \<Rightarrow> size_type \<Rightarrow> size_type \<Rightarrow> size_type \<Rightarrow> ('k, 'v) table
    \<Rightarrow> (TwoBuckets \<times> size_type option) \<times> ('k, 'v) table" where
  "lock_three cfg hp i0 i1' i2' t =
    (let st = sort_step 1 0 (sort_step 2 0 (sort_step 2 1
                ([lock_ind i0, lock_ind i1', lock_ind i2'], [0, 1, 2])));
         l = fst st; l2i = snd st;
         t0 = lock_and_rehash cfg (l ! 0) t;
         t1 = (if l ! 1 \<noteq> l ! 0 then lock_and_rehash cfg (l ! 1) t0 else t0);
         t2 = (if l ! 2 \<noteq> l ! 1 then lock_and_rehash cfg (l ! 2) t1 else t1);
         cur_locks = [Some (l ! 0),
                      (if l ! 1 \<noteq> l ! 0 then Some (l ! 1) else None),
                      (if l ! 2 \<noteq> l ! 1 then Some (l ! 2) else None)];
         pos = fold (\<lambda>j m. m[l2i ! j := j]) [0, 1, 2] [0, 0, 0]
     in ((TwoBuckets_normal (cur_locks ! (pos ! 0)) (cur_locks ! (pos ! 1)) i0 i1',
          (if cur_locks ! (pos ! 2) = cur_locks ! (pos ! 0) \<or>
              cur_locks ! (pos ! 2) = cur_locks ! (pos ! 1)
           then None else cur_locks ! (pos ! 2))),
         t2))"

definition snapshot_and_lock_two ::
  "'k config \<Rightarrow> hash_value \<Rightarrow> ('k, 'v) table \<Rightarrow> TwoBuckets \<times> ('k, 'v) table" where
  "snapshot_and_lock_two cfg hv t =
    (let hp = hashpower t;
         i1' = index_hash hp (hash hv);
         i2' = alt_index hp (partial hv) i1'
     in lock_two cfg hp i1' i2' t)"

section \<open>Lookup\<close>

text \<open>
  \<open>read_and_rehash\<close>: null (\<open>None\<close>) asks the reader to retry. The writer bit of a
  quiescent table is clear, so a retry is asked only after migrating the stripe.
\<close>

definition read_and_rehash ::
  "'k config \<Rightarrow> size_type \<Rightarrow> ('k, 'v) table \<Rightarrow> size_type option \<times> ('k, 'v) table" where
  "read_and_rehash cfg l t =
    (if \<not> is_migrated (locks t ! unat l)
     then (None, set_migrated l True (migrate_lock cfg l t))
     else (Some l, t))"

text \<open>
  The optimistic read loop. The epochs read at the start are the epochs found at the end
  when no writer runs, so the validation at the end of an iteration succeeds.
\<close>

partial_function (option) read_value_loop ::
  "'k config \<Rightarrow> 'k \<Rightarrow> hash_value \<Rightarrow> ('k, 'v) table \<Rightarrow> ('v option \<times> ('k, 'v) table) option"
  where
  "read_value_loop cfg key hv t =
    (let hp = hashpower t;
         i1' = index_hash hp (hash hv);
         i2' = alt_index hp (partial hv) i1';
         l1 = lock_ind i1';
         l2 = lock_ind i2';
         r1 = read_and_rehash cfg l1 t
     in if fst r1 = None \<or> hp \<noteq> hashpower (snd r1) then read_value_loop cfg key hv (snd r1)
        else
          let r2 = (if l1 \<noteq> l2 then read_and_rehash cfg l2 (snd r1) else (Some l1, snd r1))
          in if l1 \<noteq> l2 \<and> fst r2 = None then read_value_loop cfg key hv (snd r2)
             else
               let t2 = snd r2;
                   pos = cuckoo_find cfg t2 key (partial hv) i1' i2'
               in Some ((if pos_status pos = ok
                         then Some (slot_mapped (get_bucket t2 (pos_index pos)) (pos_slot pos))
                         else None), t2))"

declare read_value_loop.simps [code]

definition read_value ::
  "'k config \<Rightarrow> 'k \<Rightarrow> ('k, 'v) table \<Rightarrow> ('v option \<times> ('k, 'v) table) option" where
  "read_value cfg key t = read_value_loop cfg key (hashed_key cfg key) t"

text \<open>
  \<open>find_fn\<close>: the functor is called on a copy of the value; what it computes is
  returned next to the boolean.
\<close>

definition find_fn ::
  "'k config \<Rightarrow> 'k \<Rightarrow> ('v \<Rightarrow> 'r) \<Rightarrow> ('k, 'v) table
    \<Rightarrow> ((bool \<times> 'r option) \<times> ('k, 'v) table) option" where
  "find_fn cfg key fn t =
    map_option (\<lambda>(value_opt, t').
        (case value_opt of Some v \<Rightarrow> ((True, Some (fn v)), t') | None \<Rightarrow> ((False, None), t')))
      (read_value cfg key t)"

text \<open>\<open>find(key, val)\<close>: the boolean and the content of \<open>val\<close> afterwards.\<close>

definition find_into ::
  "'k config \<Rightarrow> 'k \<Rightarrow> 'v \<Rightarrow> ('k, 'v) table \<Rightarrow> ((bool \<times> 'v) \<times> ('k, 'v) table) option" where
  "find_into cfg key val t =
    map_option (\<lambda>((found, r), t'). ((found, (case r of Some v \<Rightarrow> v | None \<Rightarrow> val)), t'))
      (find_fn cfg key (\<lambda>v. v) t)"

text \<open>\<open>find(key)\<close>: the value, or \<open>std::out_of_range\<close>.\<close>

definition find_value ::
  "'k config \<Rightarrow> 'k \<Rightarrow> ('k, 'v) table \<Rightarrow> ((error + 'v) \<times> ('k, 'v) table) option" where
  "find_value cfg key t =
    map_option (\<lambda>(value_opt, t').
        (case value_opt of Some v \<Rightarrow> (Inr v, t') | None \<Rightarrow> (Inl KeyNotFound, t')))
      (read_value cfg key t)"

definition contains ::
  "'k config \<Rightarrow> 'k \<Rightarrow> ('k, 'v) table \<Rightarrow> (bool \<times> ('k, 'v) table) option" where
  "contains cfg key t =
    map_option (\<lambda>((found, r), t'). (found, t')) (find_fn cfg key (\<lambda>v. ()) t)"

section \<open>Update and erase\<close>

definition set_mapped ::
  "size_type \<Rightarrow> nat \<Rightarrow> 'v \<Rightarrow> ('k, 'v) table \<Rightarrow> ('k, 'v) table" where
  "set_mapped i sl v t =
    (let b = get_bucket t i
     in set_bucket i (b[sl := Some (slot_partial b sl, slot_key b sl, v)]) t)"

definition del_from_bucket ::
  "size_type \<Rightarrow> size_type \<Rightarrow> nat \<Rightarrow> ('k, 'v) table \<Rightarrow> ('k, 'v) table" where
  "del_from_bucket lock' i sl t =
    add_counter lock' (- 1) (set_bucket i (eraseKV (get_bucket t i) sl) t)"

definition add_to_bucket ::
  "size_type \<Rightarrow> size_type \<Rightarrow> nat \<Rightarrow> partial_t \<Rightarrow> 'k \<Rightarrow> 'v \<Rightarrow> ('k, 'v) table
    \<Rightarrow> ('k, 'v) table" where
  "add_to_bucket lock' i sl p key val t =
    add_counter lock' 1 (set_bucket i (setKV (get_bucket t i) sl p key val) t)"

definition update_fn ::
  "'k config \<Rightarrow> 'k \<Rightarrow> ('v \<Rightarrow> 'v) \<Rightarrow> ('k, 'v) table \<Rightarrow> bool \<times> ('k, 'v) table" where
  "update_fn cfg key fn t =
    (let hv = hashed_key cfg key;
         r = snapshot_and_lock_two cfg hv t;
         b = fst r; t1 = snd r;
         pos = cuckoo_find cfg t1 key (partial hv) (tb_i1 b) (tb_i2 b)
     in if pos_status pos = ok
        then (True, set_mapped (pos_index pos) (pos_slot pos)
                      (fn (slot_mapped (get_bucket t1 (pos_index pos)) (pos_slot pos))) t1)
        else (False, t1))"

definition update ::
  "'k config \<Rightarrow> 'k \<Rightarrow> 'v \<Rightarrow> ('k, 'v) table \<Rightarrow> bool \<times> ('k, 'v) table" where
  "update cfg key val t = update_fn cfg key (\<lambda>v. val) t"

text \<open>
  The functor of \<open>erase_fn\<close> and \<open>uprase_fn\<close> changes the value and returns a
  boolean: \<open>fn v = (v', erase)\<close>.
\<close>

definition erase_fn ::
  "'k config \<Rightarrow> 'k \<Rightarrow> ('v \<Rightarrow> 'v \<times> bool) \<Rightarrow> ('k, 'v) table \<Rightarrow> bool \<times> ('k, 'v) table" where
  "erase_fn cfg key fn t =
    (let hv = hashed_key cfg key;
         r = snapshot_and_lock_two cfg hv t;
         b = fst r; t1 = snd r;
         pos = cuckoo_find cfg t1 key (partial hv) (tb_i1 b) (tb_i2 b)
     in if pos_status pos = ok
        then
          (let fr = fn (slot_mapped (get_bucket t1 (pos_index pos)) (pos_slot pos));
               t2 = set_mapped (pos_index pos) (pos_slot pos) (fst fr) t1
           in if snd fr
              then (True, del_from_bucket (the (tb_lock1 b)) (pos_index pos) (pos_slot pos) t2)
              else (True, t2))
        else (False, t1))"

definition erase :: "'k config \<Rightarrow> 'k \<Rightarrow> ('k, 'v) table \<Rightarrow> bool \<times> ('k, 'v) table" where
  "erase cfg key t = erase_fn cfg key (\<lambda>v. (v, True)) t"

section \<open>Breadth-first search for a cuckoo path\<close>

record CuckooRecord =
  cr_bucket :: size_type
  cr_slot :: nat
  cr_hv :: hash_value

fun const_pow :: "nat \<Rightarrow> nat \<Rightarrow> nat" where
  "const_pow a 0 = 1"
| "const_pow a (Suc b) = a * const_pow a b"

record b_slot =
  bs_bucket :: size_type
  bs_pathcode :: "16 word"
  bs_depth :: int

definition MAX_CUCKOO_COUNT :: "'k config \<Rightarrow> nat" where
  "MAX_CUCKOO_COUNT cfg =
    2 * (if slot_per_bucket cfg = 1 then MAX_BFS_PATH_LEN
         else (const_pow (slot_per_bucket cfg) MAX_BFS_PATH_LEN - 1) div
              (slot_per_bucket cfg - 1))"

text \<open>
  The two \<open>static_assert\<close>s on the template argument: a bucket has a slot, and a path
  code fits its 16 bits.
\<close>

definition config_ok :: "'k config \<Rightarrow> bool" where
  "config_ok cfg \<longleftrightarrow>
     0 < slot_per_bucket cfg \<and> const_pow (slot_per_bucket cfg) MAX_BFS_PATH_LEN < 65535"

text \<open>
  The queue of the search: the array \<open>slots_\<close> of \<open>MAX_CUCKOO_COUNT\<close> entries and the
  two cursors \<open>first_\<close> and \<open>last_\<close>. An assertion that fails aborts the program; the model then has no result
  (\<open>None\<close>), as for a loop that does not end.
\<close>

record b_queue =
  q_slots :: "b_slot list"
  q_first :: nat
  q_last :: nat

definition b_queue_new :: "'k config \<Rightarrow> b_queue" where
  "b_queue_new cfg =
    \<lparr>q_slots = replicate (MAX_CUCKOO_COUNT cfg) \<lparr>bs_bucket = 0, bs_pathcode = 0, bs_depth = 0\<rparr>,
     q_first = 0, q_last = 0\<rparr>"

definition b_queue_empty :: "b_queue \<Rightarrow> bool" where
  "b_queue_empty q \<longleftrightarrow> q_first q = q_last q"

definition b_queue_full :: "'k config \<Rightarrow> b_queue \<Rightarrow> bool" where
  "b_queue_full cfg q \<longleftrightarrow> q_last q = MAX_CUCKOO_COUNT cfg"

definition enqueue :: "'k config \<Rightarrow> b_queue \<Rightarrow> b_slot \<Rightarrow> b_queue option" where
  "enqueue cfg q x =
    (if b_queue_full cfg q then None
     else Some (q\<lparr>q_slots := (q_slots q)[q_last q := x], q_last := q_last q + 1\<rparr>))"

definition dequeue :: "b_queue \<Rightarrow> (b_slot \<times> b_queue) option" where
  "dequeue q =
    (if b_queue_empty q \<or> \<not> q_first q < q_last q then None
     else Some (q_slots q ! q_first q, q\<lparr>q_first := q_first q + 1\<rparr>))"

text \<open>
  The \<open>for\<close> loop of \<open>slot_search\<close> over the slots of the dequeued bucket: it ends the
  search with a path (\<open>Some\<close>) or not (\<open>None\<close>), and leaves the queue.
\<close>

function slot_search_slots ::
  "'k config \<Rightarrow> nat \<Rightarrow> ('k, 'v) bucket \<Rightarrow> b_slot \<Rightarrow> nat \<Rightarrow> nat \<Rightarrow> b_queue
    \<Rightarrow> (b_slot option \<times> b_queue) option" where
  "slot_search_slots cfg hp b x starting_slot i q =
    (if i < slot_per_bucket cfg then
       (let sl = (starting_slot + i) mod slot_per_bucket cfg in
        if \<not> occupied b sl
        then Some (Some (x\<lparr>bs_pathcode :=
                             bs_pathcode x * of_nat (slot_per_bucket cfg) + of_nat sl\<rparr>), q)
        else
          let p = slot_partial b sl in
          if bs_depth x < int MAX_BFS_PATH_LEN - 1
          then
            (case enqueue cfg q
                    \<lparr>bs_bucket = alt_index hp p (bs_bucket x),
                     bs_pathcode = bs_pathcode x * of_nat (slot_per_bucket cfg) + of_nat sl,
                     bs_depth = bs_depth x + 1\<rparr> of
               None \<Rightarrow> None
             | Some q' \<Rightarrow> slot_search_slots cfg hp b x starting_slot (i + 1) q')
          else slot_search_slots cfg hp b x starting_slot (i + 1) q)
     else Some (None, q))"
  by pat_completeness auto
termination
  by (relation "measure (\<lambda>(cfg, hp, b, x, starting_slot, i, q). slot_per_bucket cfg - i)") auto

declare slot_search_slots.simps [simp del]

partial_function (option) slot_search_loop ::
  "'k config \<Rightarrow> nat \<Rightarrow> b_queue \<Rightarrow> ('k, 'v) table
    \<Rightarrow> (b_slot \<times> b_queue \<times> ('k, 'v) table) option" where
  "slot_search_loop cfg hp q t =
    (if b_queue_empty q
     then Some (\<lparr>bs_bucket = 0, bs_pathcode = 0, bs_depth = - 1\<rparr>, q, t)
     else
       (case dequeue q of
          None \<Rightarrow> None
        | Some xq \<Rightarrow>
            (let x = fst xq;
                 t1 = lock_one cfg hp (bs_bucket x) t;
                 b = get_bucket t1 (bs_bucket x);
                 starting_slot = unat (bs_pathcode x) mod slot_per_bucket cfg
             in case slot_search_slots cfg hp b x starting_slot 0 (snd xq) of
                  None \<Rightarrow> None
                | Some (Some found, q') \<Rightarrow> Some (found, q', t1)
                | Some (None, q') \<Rightarrow> slot_search_loop cfg hp q' t1)))"

declare slot_search_loop.simps [code]

text \<open>
  \<open>slot_search\<close> up to its loop: the queue with the two starting buckets.
\<close>

definition slot_search_start :: "'k config \<Rightarrow> size_type \<Rightarrow> size_type \<Rightarrow> b_queue option" where
  "slot_search_start cfg i1' i2' =
    (case enqueue cfg (b_queue_new cfg) \<lparr>bs_bucket = i1', bs_pathcode = 0, bs_depth = 0\<rparr> of
       None \<Rightarrow> None
     | Some q1 \<Rightarrow> enqueue cfg q1 \<lparr>bs_bucket = i2', bs_pathcode = 1, bs_depth = 0\<rparr>)"

definition slot_search ::
  "'k config \<Rightarrow> nat \<Rightarrow> size_type \<Rightarrow> size_type \<Rightarrow> ('k, 'v) table
    \<Rightarrow> (b_slot \<times> ('k, 'v) table) option" where
  "slot_search cfg hp i1' i2' t =
    (case slot_search_start cfg i1' i2' of
       None \<Rightarrow> None
     | Some q \<Rightarrow> map_option (\<lambda>(x, q', t'). (x, t')) (slot_search_loop cfg hp q t))"

section \<open>Cuckoo paths\<close>

text \<open>
  The array \<open>cuckoo_path\<close> of \<open>MAX_BFS_PATH_LEN\<close> records. \<open>run_cuckoo\<close> declares it
  without initialising it; every record is written before it is read.
\<close>

type_synonym CuckooRecords = "CuckooRecord list"

definition cuckoo_path_new :: CuckooRecords where
  "cuckoo_path_new =
    replicate MAX_BFS_PATH_LEN
      \<lparr>cr_bucket = 0, cr_slot = 0, cr_hv = \<lparr>hash = 0, partial = 0\<rparr>\<rparr>"

text \<open>The first loop of \<open>cuckoopath_search\<close>: the slots, from the end to the beginning.\<close>

fun decode_slots ::
  "'k config \<Rightarrow> nat \<Rightarrow> CuckooRecords \<times> 16 word \<Rightarrow> CuckooRecords \<times> 16 word" where
  "decode_slots cfg 0 (cuckoo_path, pathcode) =
     (cuckoo_path[0 := (cuckoo_path ! 0)\<lparr>cr_slot := unat pathcode mod slot_per_bucket cfg\<rparr>],
      of_nat (unat pathcode div slot_per_bucket cfg))"
| "decode_slots cfg (Suc i) (cuckoo_path, pathcode) =
     decode_slots cfg i
       (cuckoo_path[Suc i :=
           (cuckoo_path ! Suc i)\<lparr>cr_slot := unat pathcode mod slot_per_bucket cfg\<rparr>],
        of_nat (unat pathcode div slot_per_bucket cfg))"

text \<open>
  The second loop of \<open>cuckoopath_search\<close>, from record \<open>i\<close> to record \<open>depth\<close>:
  the depth returned, the path and the table.
\<close>

function cuckoopath_search_loop ::
  "'k config \<Rightarrow> nat \<Rightarrow> nat \<Rightarrow> nat \<Rightarrow> CuckooRecords \<Rightarrow> ('k, 'v) table
    \<Rightarrow> int \<times> CuckooRecords \<times> ('k, 'v) table" where
  "cuckoopath_search_loop cfg hp depth i cuckoo_path t =
    (if i \<le> depth then
       (let prev = cuckoo_path ! (i - 1);
            curr_bucket = alt_index hp (partial (cr_hv prev)) (cr_bucket prev);
            path1 = cuckoo_path[i := (cuckoo_path ! i)\<lparr>cr_bucket := curr_bucket\<rparr>];
            t1 = lock_one cfg hp curr_bucket t;
            b = get_bucket t1 curr_bucket
        in if \<not> occupied b (cr_slot (path1 ! i)) then (int i, path1, t1)
           else cuckoopath_search_loop cfg hp depth (i + 1)
                  (path1[i := (path1 ! i)\<lparr>cr_hv :=
                      hashed_key cfg (slot_key b (cr_slot (path1 ! i)))\<rparr>]) t1)
     else (int depth, cuckoo_path, t))"
  by pat_completeness auto
termination
  by (relation "measure (\<lambda>(cfg, hp, depth, i, cuckoo_path, t). Suc depth - i)") auto

declare cuckoopath_search_loop.simps [simp del]

definition cuckoopath_search ::
  "'k config \<Rightarrow> nat \<Rightarrow> CuckooRecords \<Rightarrow> size_type \<Rightarrow> size_type \<Rightarrow> ('k, 'v) table
    \<Rightarrow> (int \<times> CuckooRecords \<times> ('k, 'v) table) option" where
  "cuckoopath_search cfg hp cuckoo_path i1' i2' t =
    (case slot_search cfg hp i1' i2' t of
       None \<Rightarrow> None
     | Some (x, t0) \<Rightarrow>
         if bs_depth x = - 1 then Some (- 1, cuckoo_path, t0)
         else
           (let dec = decode_slots cfg (nat (bs_depth x)) (cuckoo_path, bs_pathcode x);
                path0 = fst dec;
                first_bucket = (if snd dec = 0 then i1' else i2');
                path1 = path0[0 := (path0 ! 0)\<lparr>cr_bucket := first_bucket\<rparr>];
                t1 = lock_one cfg hp first_bucket t0;
                b = get_bucket t1 first_bucket
            in if \<not> occupied b (cr_slot (path1 ! 0)) then Some (0, path1, t1)
               else Some (cuckoopath_search_loop cfg hp (nat (bs_depth x)) 1
                      (path1[0 := (path1 ! 0)\<lparr>cr_hv :=
                          hashed_key cfg (slot_key b (cr_slot (path1 ! 0)))\<rparr>]) t1)))"

definition unlock :: "TwoBuckets \<Rightarrow> TwoBuckets" where
  "unlock b = b\<lparr>tb_lock1 := None, tb_lock2 := None\<rparr>"

text \<open>
  The \<open>while\<close> loop of \<open>cuckoopath_move\<close>, for \<open>depth > 0\<close>: whether the path was
  replayed, the buckets held and the table.
\<close>

fun cuckoopath_move_loop ::
  "'k config \<Rightarrow> nat \<Rightarrow> CuckooRecords \<Rightarrow> nat \<Rightarrow> TwoBuckets \<Rightarrow> ('k, 'v) table
    \<Rightarrow> bool \<times> TwoBuckets \<times> ('k, 'v) table" where
  "cuckoopath_move_loop cfg hp cuckoo_path 0 b t = (True, b, t)"
| "cuckoopath_move_loop cfg hp cuckoo_path (Suc d) b t =
    (let from = cuckoo_path ! d;
         to = cuckoo_path ! Suc d;
         fs = cr_slot from;
         ts = cr_slot to;
         locked = (if Suc d = 1
                   then (let r = lock_three cfg hp (tb_i1 b) (tb_i2 b) (cr_bucket to) t
                         in (fst (fst r), snd r))
                   else lock_two cfg hp (cr_bucket from) (cr_bucket to) t);
         twob = fst locked;
         t1 = snd locked;
         fb = get_bucket t1 (cr_bucket from);
         tb = get_bucket t1 (cr_bucket to)
     in if occupied tb ts \<or> \<not> occupied fb fs \<or>
           hash_function cfg (slot_key fb fs) \<noteq> hash (cr_hv from)
        then (False, b, t1)
        else
          (let t2 = set_bucket (cr_bucket to)
                      (setKV tb ts (slot_partial fb fs) (slot_key fb fs) (slot_mapped fb fs)) t1;
               t3 = set_bucket (cr_bucket from) (eraseKV (get_bucket t2 (cr_bucket from)) fs) t2
           in cuckoopath_move_loop cfg hp cuckoo_path d (if Suc d = 1 then twob else b) t3))"

definition cuckoopath_move ::
  "'k config \<Rightarrow> nat \<Rightarrow> CuckooRecords \<Rightarrow> nat \<Rightarrow> TwoBuckets \<Rightarrow> ('k, 'v) table
    \<Rightarrow> bool \<times> TwoBuckets \<times> ('k, 'v) table" where
  "cuckoopath_move cfg hp cuckoo_path depth b t =
    (if depth = 0 then
       (let bucket_i = cr_bucket (cuckoo_path ! 0);
            r = lock_two cfg hp (tb_i1 b) (tb_i2 b) t
        in if \<not> occupied (get_bucket (snd r) bucket_i) (cr_slot (cuckoo_path ! 0))
           then (True, fst r, snd r)
           else (False, unlock (fst r), snd r))
     else cuckoopath_move_loop cfg hp cuckoo_path depth b t)"

text \<open>
  \<open>run_cuckoo\<close>: the status, \<open>insert_bucket\<close>, \<open>insert_slot\<close>, the buckets held and
  the table. On a quiescent table \<open>hashpower_changed\<close> is not thrown, so the status is
  \<open>ok\<close> or \<open>failure\<close>.
\<close>

partial_function (option) run_cuckoo_loop ::
  "'k config \<Rightarrow> nat \<Rightarrow> CuckooRecords \<Rightarrow> TwoBuckets \<Rightarrow> ('k, 'v) table
    \<Rightarrow> (cuckoo_status \<times> size_type \<times> nat \<times> TwoBuckets \<times> ('k, 'v) table) option" where
  "run_cuckoo_loop cfg hp cuckoo_path b t =
    (case cuckoopath_search cfg hp cuckoo_path (tb_i1 b) (tb_i2 b) t of
       None \<Rightarrow> None
     | Some (depth, path1, t1) \<Rightarrow>
         if depth < 0 then Some (failure, 0, 0, b, t1)
         else
           (case cuckoopath_move cfg hp path1 (nat depth) b t1 of
              (moved, b2, t2) \<Rightarrow>
                if moved
                then Some (ok, cr_bucket (path1 ! 0), cr_slot (path1 ! 0), b2, t2)
                else run_cuckoo_loop cfg hp path1 b2 t2))"

declare run_cuckoo_loop.simps [code]

definition run_cuckoo ::
  "'k config \<Rightarrow> TwoBuckets \<Rightarrow> ('k, 'v) table
    \<Rightarrow> (cuckoo_status \<times> size_type \<times> nat \<times> TwoBuckets \<times> ('k, 'v) table) option" where
  "run_cuckoo cfg b t = run_cuckoo_loop cfg (hashpower t) cuckoo_path_new (unlock b) t"

section \<open>Insertion\<close>

definition cuckoo_insert ::
  "'k config \<Rightarrow> hash_value \<Rightarrow> TwoBuckets \<Rightarrow> 'k \<Rightarrow> ('k, 'v) table
    \<Rightarrow> (table_position \<times> TwoBuckets \<times> ('k, 'v) table) option" where
  "cuckoo_insert cfg hv b key t =
    (let r1 = try_find_insert_bucket cfg (get_bucket t (tb_i1 b)) (partial hv) key in
     if \<not> fst r1
     then Some (\<lparr>pos_index = tb_i1 b, pos_slot = nat (snd r1),
                 pos_status = failure_key_duplicated\<rparr>, b, t)
     else
       let r2 = try_find_insert_bucket cfg (get_bucket t (tb_i2 b)) (partial hv) key in
       if \<not> fst r2
       then Some (\<lparr>pos_index = tb_i2 b, pos_slot = nat (snd r2),
                   pos_status = failure_key_duplicated\<rparr>, b, t)
       else if snd r1 \<noteq> - 1
       then Some (\<lparr>pos_index = tb_i1 b, pos_slot = nat (snd r1), pos_status = ok\<rparr>, b, t)
       else if snd r2 \<noteq> - 1
       then Some (\<lparr>pos_index = tb_i2 b, pos_slot = nat (snd r2), pos_status = ok\<rparr>, b, t)
       else
         (case run_cuckoo cfg b t of
            None \<Rightarrow> None
          | Some (st, insert_bucket, insert_slot, b', t') \<Rightarrow>
              if st = failure_under_expansion
              then Some (\<lparr>pos_index = 0, pos_slot = 0,
                          pos_status = failure_under_expansion\<rparr>, b', t')
              else if st = ok
              then
                (let pos = cuckoo_find cfg t' key (partial hv) (tb_i1 b') (tb_i2 b')
                 in if pos_status pos = ok
                    then Some (pos\<lparr>pos_status := failure_key_duplicated\<rparr>, b', t')
                    else Some (\<lparr>pos_index = insert_bucket, pos_slot = insert_slot,
                                pos_status = ok\<rparr>, b', t'))
              else Some (\<lparr>pos_index = 0, pos_slot = 0,
                          pos_status = failure_table_full\<rparr>, b', t')))"

section \<open>Resizing\<close>

text \<open>
  \<open>check_resize_validity\<close>, with the template argument \<open>AUTO_RESIZE\<close> as a boolean:
  an exception (\<open>Inl\<close>) or a status.
\<close>

definition check_resize_validity ::
  "'k config \<Rightarrow> bool \<Rightarrow> nat \<Rightarrow> nat \<Rightarrow> ('k, 'v) table \<Rightarrow> error + cuckoo_status" where
  "check_resize_validity cfg auto_resize orig_hp new_hp t =
    (if (case maximum_hashpower t of None \<Rightarrow> False | Some mhp \<Rightarrow> new_hp > mhp)
     then Inl MaxHashpowerExceeded
     else if auto_resize \<and> double_less (load_factor cfg t) (minimum_load_factor t)
     then Inl LoadFactorTooLow
     else if hashpower t \<noteq> orig_hp then Inr failure_under_expansion
     else Inr ok)"

text \<open>
  \<open>rehash_with_workers\<close> with no extra worker thread: the stripes in order.
\<close>

definition rehash_with_workers :: "'k config \<Rightarrow> ('k, 'v) table \<Rightarrow> ('k, 'v) table" where
  "rehash_with_workers cfg t =
    fold (\<lambda>i t'. lock_and_rehash cfg (of_nat i) t') [0..<length (locks t)] t"

definition rehash_all :: "'k config \<Rightarrow> nat \<Rightarrow> ('k, 'v) table \<Rightarrow> ('k, 'v) table" where
  "rehash_all cfg current_hp t =
    (if current_hp > kMaxNumLocksPow then rehash_with_workers cfg t else t)"

text \<open>
  Modelled from the spec: \<open>double_size\<close> of the lock container and of the bucket
  container, which are outside the given sources. The stripe array grows to twice its
  size, the new stripes with no elements and marked migrated; the bucket array gets a
  second half of empty buckets.
\<close>

definition maybe_resize_locks :: "('k, 'v) table \<Rightarrow> ('k, 'v) table" where
  "maybe_resize_locks t =
    (if hashpower t \<ge> kMaxNumLocksPow then t
     else t\<lparr>locks := locks t @
            replicate (length (locks t)) \<lparr>elem_counter = 0, is_migrated = True\<rparr>\<rparr>)"

definition double_size :: "'k config \<Rightarrow> ('k, 'v) table \<Rightarrow> ('k, 'v) table" where
  "double_size cfg t =
    t\<lparr>hashpower := hashpower t + 1,
      buckets := buckets t @
        replicate (length (buckets t)) (replicate (slot_per_bucket cfg) None)\<rparr>"

text \<open>
  \<open>cuckoo_fast_double\<close> in normal mode, for nothrow-move-constructible keys and values.
\<close>

definition cuckoo_fast_double ::
  "'k config \<Rightarrow> bool \<Rightarrow> nat \<Rightarrow> ('k, 'v) table
    \<Rightarrow> (error + cuckoo_status) \<times> ('k, 'v) table" where
  "cuckoo_fast_double cfg auto_resize current_hp t =
    (let new_hp = current_hp + 1 in
     case check_resize_validity cfg auto_resize current_hp new_hp t of
       Inl e \<Rightarrow> (Inl e, t)
     | Inr st \<Rightarrow>
         if st \<noteq> ok then (Inr st, t)
         else
           (let t1 = rehash_all cfg current_hp t;
                t2 = maybe_resize_locks t1;
                t3 = double_size cfg t2
            in if current_hp < kMaxNumLocksPow
               then (Inr ok,
                     fold (\<lambda>old_bucket_ind t'.
                             move_bucket cfg current_hp (of_nat old_bucket_ind)
                               (of_nat old_bucket_ind)
                               (hashsize current_hp + of_nat old_bucket_ind)
                               (\<lambda>old_bucket_slot t''.
                                   add_counter (hashsize current_hp + of_nat old_bucket_ind) 1
                                     (add_counter (of_nat old_bucket_ind) (- 1)
                                       (set_bucket (of_nat old_bucket_ind)
                                         (eraseKV (get_bucket t'' (of_nat old_bucket_ind))
                                            old_bucket_slot) t'')))
                               t')
                       [0..<unat (hashsize current_hp)] t3)
               else (Inr ok,
                     fold (\<lambda>i t'. set_migrated (of_nat i) False t')
                       [0..<length (locks t3)] t3)))"

text \<open>
  \<open>cuckoo_insert_loop\<close>: an exception of the expansion (\<open>Inl\<close>), or the position with
  the buckets held.
\<close>

partial_function (option) cuckoo_insert_loop ::
  "'k config \<Rightarrow> hash_value \<Rightarrow> TwoBuckets \<Rightarrow> 'k \<Rightarrow> ('k, 'v) table
    \<Rightarrow> ((error + table_position \<times> TwoBuckets) \<times> ('k, 'v) table) option" where
  "cuckoo_insert_loop cfg hv b key t =
    (let hp = hashpower t in
     case cuckoo_insert cfg hv b key t of
       None \<Rightarrow> None
     | Some (pos, b1, t1) \<Rightarrow>
         if pos_status pos = ok \<or> pos_status pos = failure_key_duplicated
         then Some (Inr (pos, b1), t1)
         else if pos_status pos = failure_table_full
         then
           (case cuckoo_fast_double cfg True hp t1 of
              (Inl e, t2) \<Rightarrow> Some (Inl e, t2)
            | (Inr st, t2) \<Rightarrow>
                (case snapshot_and_lock_two cfg hv t2 of
                   (b3, t3) \<Rightarrow> cuckoo_insert_loop cfg hv b3 key t3))
         else if pos_status pos = failure_under_expansion
         then
           (case snapshot_and_lock_two cfg hv t1 of
              (b3, t3) \<Rightarrow> cuckoo_insert_loop cfg hv b3 key t3)
         else None)"

declare cuckoo_insert_loop.simps [code]

subsection \<open>The inserting operations\<close>

definition uprase_fn ::
  "'k config \<Rightarrow> 'k \<Rightarrow> ('v \<Rightarrow> 'v \<times> bool) \<Rightarrow> 'v \<Rightarrow> ('k, 'v) table
    \<Rightarrow> ((error + bool) \<times> ('k, 'v) table) option" where
  "uprase_fn cfg key fn val t =
    (let hv = hashed_key cfg key in
     case snapshot_and_lock_two cfg hv t of
       (b, t0) \<Rightarrow>
         (case cuckoo_insert_loop cfg hv b key t0 of
            None \<Rightarrow> None
          | Some (Inl e, t1) \<Rightarrow> Some (Inl e, t1)
          | Some (Inr (pos, b1), t1) \<Rightarrow>
              if pos_status pos = ok
              then Some (Inr True,
                     add_to_bucket (the (tb_lock1 b1)) (pos_index pos) (pos_slot pos)
                       (partial hv) key val t1)
              else
                (let fr = fn (slot_mapped (get_bucket t1 (pos_index pos)) (pos_slot pos));
                     t2 = set_mapped (pos_index pos) (pos_slot pos) (fst fr) t1
                 in if snd fr
                    then Some (Inr False,
                           del_from_bucket (the (tb_lock1 b1)) (pos_index pos) (pos_slot pos) t2)
                    else Some (Inr False, t2))))"

definition upsert ::
  "'k config \<Rightarrow> 'k \<Rightarrow> ('v \<Rightarrow> 'v) \<Rightarrow> 'v \<Rightarrow> ('k, 'v) table
    \<Rightarrow> ((error + bool) \<times> ('k, 'v) table) option" where
  "upsert cfg key fn val t = uprase_fn cfg key (\<lambda>v. (fn v, False)) val t"

definition insert_tbl ::
  "'k config \<Rightarrow> 'k \<Rightarrow> 'v \<Rightarrow> ('k, 'v) table \<Rightarrow> ((error + bool) \<times> ('k, 'v) table) option" where
  "insert_tbl cfg key val t = upsert cfg key (\<lambda>v. v) val t"


section \<open>Construction, clearing and explicit resizing\<close>

text \<open>
  The constructor \<open>cuckoohash_map(n, hf, equal, alloc)\<close>.
  Modelled from the spec: the containers built by \<open>buckets_(hp, alloc)\<close> and
  \<open>locks_(min(hp, kMaxNumLocksPow), alloc)\<close>, whose classes are outside the given sources:
  \<open>2 ^ hp\<close> buckets with all slots free, and \<open>2 ^ min(hp, kMaxNumLocksPow)\<close> stripes
  with no elements, marked migrated.
\<close>

definition new_table :: "'k config \<Rightarrow> nat \<Rightarrow> ('k, 'v) table" where
  "new_table cfg n =
    \<lparr>hashpower = reserve_calc cfg n,
     buckets = replicate (2 ^ reserve_calc cfg n) (replicate (slot_per_bucket cfg) None),
     locks = replicate (2 ^ min (reserve_calc cfg n) kMaxNumLocksPow)
               \<lparr>elem_counter = 0, is_migrated = True\<rparr>,
     minimum_load_factor = default_minimum_load_factor cfg,
     maximum_hashpower = None\<rparr>"

text \<open>\<open>clear\<close> of the bucket container, on one bucket, and \<open>cuckoo_clear\<close>.\<close>

definition clear_bucket :: "'k config \<Rightarrow> ('k, 'v) bucket \<Rightarrow> ('k, 'v) bucket" where
  "clear_bucket cfg b =
    fold (\<lambda>sl b'. if occupied b' sl then eraseKV b' sl else b') [0..<slot_per_bucket cfg] b"

definition cuckoo_clear :: "'k config \<Rightarrow> ('k, 'v) table \<Rightarrow> ('k, 'v) table" where
  "cuckoo_clear cfg t =
    t\<lparr>buckets := map (clear_bucket cfg) (buckets t),
      locks := map (\<lambda>lock. lock\<lparr>elem_counter := 0, is_migrated := True\<rparr>) (locks t)\<rparr>"

definition clear :: "'k config \<Rightarrow> ('k, 'v) table \<Rightarrow> ('k, 'v) table" where
  "clear cfg t = cuckoo_clear cfg t"

text \<open>
  \<open>cuckoo_change_capacity\<close> in normal mode, with no extra worker thread: the pairs of
  the old buckets, in the order of the two nested loops, are inserted into a new map.
\<close>

definition table_items :: "'k config \<Rightarrow> nat \<Rightarrow> ('k, 'v) table \<Rightarrow> ('k \<times> 'v) list" where
  "table_items cfg hp t =
    concat (map (\<lambda>i.
        concat (map (\<lambda>j. if occupied (buckets t ! i) j
                           then [(slot_key (buckets t ! i) j, slot_mapped (buckets t ! i) j)]
                           else [])
                  [0..<slot_per_bucket cfg]))
      [0..<unat (hashsize hp)])"

fun insert_all ::
  "'k config \<Rightarrow> ('k \<times> 'v) list \<Rightarrow> ('k, 'v) table
    \<Rightarrow> ((error + unit) \<times> ('k, 'v) table) option" where
  "insert_all cfg [] m = Some (Inr (), m)"
| "insert_all cfg (kv # kvs) m =
    (case insert_tbl cfg (fst kv) (snd kv) m of
       None \<Rightarrow> None
     | Some (Inl e, m') \<Rightarrow> Some (Inl e, m')
     | Some (Inr inserted, m') \<Rightarrow> insert_all cfg kvs m')"

definition cuckoo_change_capacity ::
  "'k config \<Rightarrow> bool \<Rightarrow> nat \<Rightarrow> ('k, 'v) table
    \<Rightarrow> ((error + cuckoo_status) \<times> ('k, 'v) table) option" where
  "cuckoo_change_capacity cfg auto_resize new_hp t =
    (let hp = hashpower t in
     case check_resize_validity cfg auto_resize hp new_hp t of
       Inl e \<Rightarrow> Some (Inl e, t)
     | Inr st \<Rightarrow>
         if st \<noteq> ok then Some (Inr st, t)
         else
           (let t1 = rehash_all cfg hp t;
                new_map = new_table cfg (unat (hashsize new_hp * of_nat (slot_per_bucket cfg)))
            in case insert_all cfg (table_items cfg hp t1) new_map of
                 None \<Rightarrow> None
               | Some (Inl e, m) \<Rightarrow> Some (Inl e, t1)
               | Some (Inr u, m) \<Rightarrow>
                   Some (Inr ok, t1\<lparr>hashpower := hashpower m, buckets := buckets m,
                                     locks := locks m\<rparr>)))"

definition cuckoo_rehash ::
  "'k config \<Rightarrow> nat \<Rightarrow> ('k, 'v) table \<Rightarrow> ((error + bool) \<times> ('k, 'v) table) option" where
  "cuckoo_rehash cfg n t =
    (let hp = hashpower t in
     if n = hp then Some (Inr False, t)
     else
       (case cuckoo_change_capacity cfg False n t of
          None \<Rightarrow> None
        | Some (Inl e, t') \<Rightarrow> Some (Inl e, t')
        | Some (Inr st, t') \<Rightarrow> Some (Inr (st = ok), t')))"

definition cuckoo_reserve ::
  "'k config \<Rightarrow> nat \<Rightarrow> ('k, 'v) table \<Rightarrow> ((error + bool) \<times> ('k, 'v) table) option" where
  "cuckoo_reserve cfg n t =
    (let hp = hashpower t;
         new_hp = reserve_calc cfg n
     in if new_hp = hp then Some (Inr False, t)
        else
          (case cuckoo_change_capacity cfg False new_hp t of
             None \<Rightarrow> None
           | Some (Inl e, t') \<Rightarrow> Some (Inl e, t')
           | Some (Inr st, t') \<Rightarrow> Some (Inr (st = ok), t')))"

definition rehash ::
  "'k config \<Rightarrow> nat \<Rightarrow> ('k, 'v) table \<Rightarrow> ((error + bool) \<times> ('k, 'v) table) option" where
  "rehash cfg n t = cuckoo_rehash cfg n t"

definition reserve ::
  "'k config \<Rightarrow> nat \<Rightarrow> ('k, 'v) table \<Rightarrow> ((error + bool) \<times> ('k, 'v) table) option" where
  "reserve cfg n t = cuckoo_reserve cfg n t"

subsection \<open>Measures of the search, used in the proofs\<close>

text \<open>
  \<open>geo S n\<close> is \<open>1 + S + \<dots> + S ^ n\<close>. The weight of a queue entry at depth \<open>d\<close>
  counts the entry and all entries the search can still derive from it.
\<close>

fun geo :: "nat \<Rightarrow> nat \<Rightarrow> nat" where
  "geo S 0 = 1"
| "geo S (Suc n) = 1 + S * geo S n"

definition weight :: "'k config \<Rightarrow> int \<Rightarrow> nat" where
  "weight cfg d = geo (slot_per_bucket cfg) (nat (int MAX_BFS_PATH_LEN - 1 - d))"

definition pending :: "b_queue \<Rightarrow> b_slot list" where
  "pending q = map (\<lambda>i. q_slots q ! i) [q_first q..<q_last q]"

definition potential :: "'k config \<Rightarrow> b_queue \<Rightarrow> nat" where
  "potential cfg q = q_first q + sum_list (map (\<lambda>x. weight cfg (bs_depth x)) (pending q))"

definition queue_inv :: "'k config \<Rightarrow> b_queue \<Rightarrow> bool" where
  "queue_inv cfg q \<longleftrightarrow>
     q_first q \<le> q_last q \<and> length (q_slots q) = MAX_CUCKOO_COUNT cfg"

subsection \<open>Notions used in the statements\<close>

text \<open>
  Slot \<open>i\<close> of bucket \<open>b\<close> holds the key, as both scans of a bucket test it: the slot
  is occupied, its partial agrees unless the key type is simple, and the keys are equal.
\<close>

definition slot_matches ::
  "'k config \<Rightarrow> ('k, 'v) bucket \<Rightarrow> partial_t \<Rightarrow> 'k \<Rightarrow> nat \<Rightarrow> bool" where
  "slot_matches cfg b p key i \<longleftrightarrow>
     occupied b i \<and> (is_simple cfg \<or> p = slot_partial b i) \<and> slot_key b i = key"

definition bucket_has_key ::
  "'k config \<Rightarrow> ('k, 'v) bucket \<Rightarrow> partial_t \<Rightarrow> 'k \<Rightarrow> bool" where
  "bucket_has_key cfg b p key \<longleftrightarrow> (\<exists>i < slot_per_bucket cfg. slot_matches cfg b p key i)"

definition has_empty_slot :: "'k config \<Rightarrow> ('k, 'v) bucket \<Rightarrow> bool" where
  "has_empty_slot cfg b \<longleftrightarrow> (\<exists>i < slot_per_bucket cfg. \<not> occupied b i)"

definition is_last_empty_slot :: "'k config \<Rightarrow> ('k, 'v) bucket \<Rightarrow> nat \<Rightarrow> bool" where
  "is_last_empty_slot cfg b i \<longleftrightarrow>
     i < slot_per_bucket cfg \<and> \<not> occupied b i \<and>
     (\<forall>j < slot_per_bucket cfg. i < j \<longrightarrow> occupied b j)"

definition is_first_empty_slot :: "'k config \<Rightarrow> ('k, 'v) bucket \<Rightarrow> nat \<Rightarrow> bool" where
  "is_first_empty_slot cfg b i \<longleftrightarrow>
     i < slot_per_bucket cfg \<and> \<not> occupied b i \<and> (\<forall>j < i. occupied b j)"

subsection \<open>Well-formed tables and the steps of the write path\<close>

text \<open>
  The shape of a table of hashpower \<open>hp\<close>: \<open>2 ^ hp\<close> buckets of \<open>SLOT_PER_BUCKET\<close>
  slots each, and \<open>min (2 ^ hp) kMaxNumLocks\<close> stripes.
\<close>

definition table_shape :: "'k config \<Rightarrow> ('k, 'v) table \<Rightarrow> bool" where
  "table_shape cfg t \<longleftrightarrow>
     length (buckets t) = 2 ^ hashpower t \<and>
     list_all (\<lambda>b. length b = slot_per_bucket cfg) (buckets t) \<and>
     length (locks t) = 2 ^ min (hashpower t) kMaxNumLocksPow"

text \<open>The number of occupied slots of a bucket and of the table.\<close>

definition bucket_occupancy :: "('k, 'v) bucket \<Rightarrow> nat" where
  "bucket_occupancy b = length (filter (\<lambda>s. s \<noteq> None) b)"

definition occupied_slots :: "('k, 'v) table \<Rightarrow> nat" where
  "occupied_slots t = sum_list (map bucket_occupancy (buckets t))"

text \<open>
  A stripe that is not migrated exists only after a lazy doubling (the old hashpower was
  at least \<open>kMaxNumLocksPow\<close>), and the buckets of the new half that belong to it are
  still empty.
\<close>

definition stripe_pending :: "('k, 'v) table \<Rightarrow> nat \<Rightarrow> bool" where
  "stripe_pending t l \<longleftrightarrow>
     kMaxNumLocksPow < hashpower t \<and>
     (\<forall>i < length (buckets t). 2 ^ (hashpower t - 1) \<le> i \<and> i mod 2 ^ kMaxNumLocksPow = l
         \<longrightarrow> bucket_occupancy (buckets t ! i) = 0)"

definition table_inv :: "'k config \<Rightarrow> ('k, 'v) table \<Rightarrow> bool" where
  "table_inv cfg t \<longleftrightarrow>
     table_shape cfg t \<and>
     table_size t = int (occupied_slots t) \<and>
     (\<forall>l < length (locks t). \<not> is_migrated (locks t ! l) \<longrightarrow> stripe_pending t l)"

text \<open>
  What no step between two resizes changes: the hashpower, the lengths of the arrays,
  the element counters and the policy values; a stripe that is migrated stays migrated.
\<close>

definition steady :: "('k, 'v) table \<Rightarrow> ('k, 'v) table \<Rightarrow> bool" where
  "steady t t' \<longleftrightarrow>
     hashpower t' = hashpower t \<and>
     map length (buckets t') = map length (buckets t) \<and>
     map elem_counter (locks t') = map elem_counter (locks t) \<and>
     (\<forall>l < length (locks t). is_migrated (locks t ! l) \<longrightarrow> is_migrated (locks t' ! l)) \<and>
     minimum_load_factor t' = minimum_load_factor t \<and>
     maximum_hashpower t' = maximum_hashpower t"

text \<open>
  The two kinds of step that searching and replaying a cuckoo path take on the table:
  taking a stripe, which migrates it when needed, and moving the pair of an occupied
  slot to a free slot of a bucket whose stripe is migrated.
\<close>

definition move_pair ::
  "size_type \<Rightarrow> nat \<Rightarrow> size_type \<Rightarrow> nat \<Rightarrow> ('k, 'v) table \<Rightarrow> ('k, 'v) table" where
  "move_pair from fs to ts t =
    (let fb = get_bucket t from;
         t2 = set_bucket to
                (setKV (get_bucket t to) ts (slot_partial fb fs) (slot_key fb fs)
                   (slot_mapped fb fs)) t
     in set_bucket from (eraseKV (get_bucket t2 from) fs) t2)"

inductive table_step :: "'k config \<Rightarrow> ('k, 'v) table \<Rightarrow> ('k, 'v) table \<Rightarrow> bool"
  for cfg :: "'k config" where
  take_stripe: "table_step cfg t (lock_and_rehash cfg l t)"
| move:
    "\<lbrakk>unat from < length (buckets t); unat to < length (buckets t);
      fs < slot_per_bucket cfg; ts < slot_per_bucket cfg;
      occupied (get_bucket t from) fs; \<not> occupied (get_bucket t to) ts;
      is_migrated (locks t ! unat (lock_ind to))\<rbrakk>
     \<Longrightarrow> table_step cfg t (move_pair from fs to ts t)"

inductive stripe_steps :: "'k config \<Rightarrow> ('k, 'v) table \<Rightarrow> ('k, 'v) table \<Rightarrow> bool"
  for cfg :: "'k config" where
  stripe_steps_refl: "stripe_steps cfg t t"
| stripe_steps_take:
    "stripe_steps cfg t t' \<Longrightarrow> stripe_steps cfg t (lock_and_rehash cfg l t')"

subsection \<open>Notions used in the proofs about the search, the keys and the lookup\<close>

text \<open>
  The depths of the entries of a queue are depths of a path of at most
  \<open>MAX_BFS_PATH_LEN\<close> records, and a record of a cuckoo path names a slot of a bucket
  of a table of hashpower \<open>hp\<close>.
\<close>

definition depths_ok :: "b_slot list \<Rightarrow> bool" where
  "depths_ok xs \<longleftrightarrow> list_all (\<lambda>y. 0 \<le> bs_depth y \<and> bs_depth y < int MAX_BFS_PATH_LEN) xs"

definition rec_ok :: "'k config \<Rightarrow> nat \<Rightarrow> CuckooRecord \<Rightarrow> bool" where
  "rec_ok cfg hp r \<longleftrightarrow> cr_slot r < slot_per_bucket cfg \<and> unat (cr_bucket r) < 2 ^ hp"

text \<open>The keys stored in a bucket and in the table.\<close>

definition slot_keys :: "('k, 'v) bucket \<Rightarrow> 'k list" where
  "slot_keys b = map (\<lambda>s. fst (snd (the s))) (filter (\<lambda>s. s \<noteq> None) b)"

definition table_keys :: "('k, 'v) table \<Rightarrow> 'k set" where
  "table_keys t = (\<Union>b \<in> set (buckets t). set (slot_keys b))"

text \<open>
  What taking stripes and replaying cuckoo paths do to a table, seen coarsely: the pair of
  an occupied slot is written to some slot and its own slot is freed, or a stripe is
  marked migrated.
\<close>

inductive shuffle :: "'k config \<Rightarrow> ('k, 'v) table \<Rightarrow> ('k, 'v) table \<Rightarrow> bool"
  for cfg :: "'k config" where
  shuffle_refl: "shuffle cfg t t"
| shuffle_move:
    "\<lbrakk>shuffle cfg t t'; unat src < length (buckets t'); fs < slot_per_bucket cfg;
      occupied (get_bucket t' src) fs\<rbrakk>
     \<Longrightarrow> shuffle cfg t (move_pair src fs dst ts t')"
| shuffle_flag: "shuffle cfg t t' \<Longrightarrow> shuffle cfg t (set_migrated l True t')"

text \<open>
  The two candidate buckets of a key at the hashpower of the table, the value that
  \<open>cuckoo_find\<close> reads for the key in them, and the table after the stripes of both
  buckets were taken.
\<close>

definition first_index :: "'k config \<Rightarrow> 'k \<Rightarrow> ('k, 'v) table \<Rightarrow> size_type" where
  "first_index cfg key t = index_hash (hashpower t) (hash (hashed_key cfg key))"

definition second_index :: "'k config \<Rightarrow> 'k \<Rightarrow> ('k, 'v) table \<Rightarrow> size_type" where
  "second_index cfg key t =
     alt_index (hashpower t) (partial (hashed_key cfg key)) (first_index cfg key t)"

definition stored_value :: "'k config \<Rightarrow> 'k \<Rightarrow> ('k, 'v) table \<Rightarrow> 'v option" where
  "stored_value cfg key t =
    (let pos = cuckoo_find cfg t key (partial (hashed_key cfg key))
                 (first_index cfg key t) (second_index cfg key t)
     in if pos_status pos = ok
        then Some (slot_mapped (get_bucket t (pos_index pos)) (pos_slot pos))
        else None)"

definition take_two :: "'k config \<Rightarrow> 'k \<Rightarrow> ('k, 'v) table \<Rightarrow> ('k, 'v) table" where
  "take_two cfg key t =
     lock_and_rehash cfg (lock_ind (second_index cfg key t))
       (lock_and_rehash cfg (lock_ind (first_index cfg key t)) t)"

text \<open>
  The state in which \<open>cuckoo_insert\<close> is called and in which it returns a position: the
  buckets held are the two candidate buckets of the key at the hashpower of the table,
  their stripes are migrated, and the first lock is the stripe of one of them.
\<close>

definition holds_two :: "'k config \<Rightarrow> 'k \<Rightarrow> TwoBuckets \<Rightarrow> ('k, 'v) table \<Rightarrow> bool" where
  "holds_two cfg key b t \<longleftrightarrow>
     table_shape cfg t \<and>
     tb_i1 b = first_index cfg key t \<and> tb_i2 b = second_index cfg key t \<and>
     is_migrated (locks t ! unat (lock_ind (tb_i1 b))) \<and>
     is_migrated (locks t ! unat (lock_ind (tb_i2 b))) \<and>
     (tb_lock1 b = Some (lock_ind (tb_i1 b)) \<or> tb_lock1 b = Some (lock_ind (tb_i2 b)))"

text \<open>
  A position returned with status \<open>ok\<close> is a free slot of a candidate bucket while
  neither candidate bucket holds the key; otherwise the status is
  \<open>failure_key_duplicated\<close> and the slot holds the key.
\<close>

definition position_ok ::
  "'k config \<Rightarrow> 'k \<Rightarrow> table_position \<Rightarrow> TwoBuckets \<Rightarrow> ('k, 'v) table \<Rightarrow> bool" where
  "position_ok cfg key pos b t \<longleftrightarrow>
     (pos_index pos = tb_i1 b \<or> pos_index pos = tb_i2 b) \<and>
     pos_slot pos < slot_per_bucket cfg \<and>
     (if pos_status pos = ok
      then \<not> bucket_has_key cfg (get_bucket t (tb_i1 b)) (partial (hashed_key cfg key)) key \<and>
           \<not> bucket_has_key cfg (get_bucket t (tb_i2 b)) (partial (hashed_key cfg key)) key \<and>
           \<not> occupied (get_bucket t (pos_index pos)) (pos_slot pos)
      else pos_status pos = failure_key_duplicated \<and>
           slot_matches cfg (get_bucket t (pos_index pos)) (partial (hashed_key cfg key)) key
             (pos_slot pos))"

text \<open>
  What searching, replaying paths and doubling keep: the table has the shape of its
  hashpower, holds no new key, and its size and policy values are the same.
\<close>

definition kept :: "'k config \<Rightarrow> ('k, 'v) table \<Rightarrow> ('k, 'v) table \<Rightarrow> bool" where
  "kept cfg t t' \<longleftrightarrow>
     table_shape cfg t' \<and> table_keys t' \<subseteq> table_keys t \<and> table_size t' = table_size t \<and>
     minimum_load_factor t' = minimum_load_factor t \<and>
     maximum_hashpower t' = maximum_hashpower t"

section \<open>Example tables\<close>

text \<open>
  A configuration with two slots per bucket and the identity as hash function, an empty
  table of two buckets, and a function computing the hashpower for a number of elements
  as the upstream helper does (the least \<open>b\<close> with \<open>2 ^ b\<close> buckets holding them).
\<close>

definition ex_reserve_calc :: "nat \<Rightarrow> nat" where
  "ex_reserve_calc n = length (takeWhile (\<lambda>b. 2 ^ b < (n + 1) div 2) [0..<64])"

definition ex_cfg :: "nat config" where
  "ex_cfg =
    \<lparr>slot_per_bucket = 2, is_simple = True, hash_function = (\<lambda>k. of_nat k),
     double_div = (\<lambda>a b. Finite (real_of_int a / real b)),
     default_minimum_load_factor = Finite (1 / 20),
     reserve_calc = ex_reserve_calc\<rparr>"

definition ex_empty :: "(nat, nat) table" where
  "ex_empty =
    \<lparr>hashpower = 1, buckets = [[None, None], [None, None]],
     locks = [\<lparr>elem_counter = 0, is_migrated = True\<rparr>,
              \<lparr>elem_counter = 0, is_migrated = True\<rparr>],
     minimum_load_factor = Finite (1 / 20), maximum_hashpower = None\<rparr>"

definition ex_one :: "(nat, nat) table" where
  "ex_one =
    \<lparr>hashpower = 1, buckets = [[None, Some (0, 0, 10)], [None, None]],
     locks = [\<lparr>elem_counter = 1, is_migrated = True\<rparr>,
              \<lparr>elem_counter = 0, is_migrated = True\<rparr>],
     minimum_load_factor = Finite (1 / 20), maximum_hashpower = None\<rparr>"

section \<open>Properties of the hashing functions\<close>

lemma hashmask_mask: "hashmask hp = mask hp"
  by (simp add: hashmask_def hashsize_def mask_eq_exp_minus_1)

lemma and_hashmask_id:
  assumes "unat i < 2 ^ hp"
  shows "i AND hashmask hp = i"
proof -
  have "unat (take_bit hp i) = unat i"
    using assms by (simp add: unsigned_take_bit_eq take_bit_nat_eq_self)
  then have "take_bit hp i = i"
    by (simp add: word_unat_eq_iff)
  then show ?thesis
    by (simp add: hashmask_mask take_bit_eq_mask)
qed

text \<open>
  Claim C3. For every hashpower \<open>hp\<close>, partial byte \<open>p\<close> and bucket index \<open>i\<close> below
  \<open>2 ^ hp\<close>, taking the alternate index twice gives \<open>i\<close> back: \<open>alt_index\<close> is an
  involution on the valid bucket indices.
\<close>

theorem alt_index_involution:
  assumes "unat i < 2 ^ hp"
  shows "alt_index hp p (alt_index hp p i) = i"
proof -
  define tag :: size_type where "tag = (ucast p + 1) * 0xc6a4a7935bd1e995"
  have "((i XOR tag) AND hashmask hp XOR tag) AND hashmask hp = i AND hashmask hp"
    by (rule bit_word_eqI) (auto simp add: bit_simps)
  then show ?thesis
    using and_hashmask_id[OF assms] by (simp add: alt_index_def Let_def tag_def)
qed

theorem alt_index_involution_witness:
  "unat (3 :: size_type) < 2 ^ 2 \<and> alt_index 2 5 (alt_index 2 5 3) = 3"
  using alt_index_involution[of 3 2 5] by simp

text \<open>
  Claim C4. The partial key of a hash \<open>h\<close> is the byte obtained by folding \<open>h\<close> with
  exclusive-or from 64 to 32 to 16 to 8 bits, which is the exclusive-or of the eight
  bytes of \<open>h\<close>; and the partial key that \<open>hashed_key\<close> attaches to a key is this
  function of the hash alone: neither \<open>partial_key\<close> nor \<open>hashed_key\<close> takes the
  table, its hashpower or its size.
\<close>

theorem partial_key_xor_fold:
  "partial_key h = xor_fold_spec h \<and>
   partial (hashed_key cfg key) = xor_fold_spec (hash_function cfg key) \<and>
   hash (hashed_key cfg key) = hash_function cfg key"
proof -
  have "partial_key x = xor_fold_spec x" for x
    unfolding partial_key_def xor_fold_spec_def byte_of_def Let_def
    by (simp add: upt_rec) (rule bit_word_eqI, auto simp add: bit_simps)
  then show ?thesis
    by (simp add: hashed_key_def Let_def)
qed

section \<open>The policy setters\<close>

text \<open>
  Claim C10. For every argument \<open>mlf\<close>, the setter \<open>minimum_load_factor(mlf)\<close> throws
  \<open>std::invalid_argument\<close> when \<open>mlf < 0.0\<close> or \<open>mlf > 1.0\<close>, and then the stored
  minimum load factor (the whole table) is unchanged; for every \<open>mlf\<close> in
  \<open>[0.0, 1.0]\<close> it stores \<open>mlf\<close> and returns normally.
\<close>

theorem minimum_load_factor_setter:
  "(double_less mlf (Finite 0) \<or> double_less (Finite 1) mlf \<longrightarrow>
      set_minimum_load_factor mlf t = (Inl InvalidArgument, t)) \<and>
   (0 \<le> r \<and> r \<le> 1 \<longrightarrow>
      set_minimum_load_factor (Finite r) t =
        (Inr (), t\<lparr>minimum_load_factor := Finite r\<rparr>))"
  by (simp add: set_minimum_load_factor_def)

theorem minimum_load_factor_setter_witness:
  "(double_less (Finite 2) (Finite 0) \<or> double_less (Finite 1) (Finite 2)) \<and>
   set_minimum_load_factor (Finite 2)
     \<lparr>hashpower = 0, buckets = [[None :: (nat, nat) slot]],
      locks = [\<lparr>elem_counter = 0, is_migrated = True\<rparr>],
      minimum_load_factor = Finite (1 / 2), maximum_hashpower = None\<rparr> =
     (Inl InvalidArgument,
      \<lparr>hashpower = 0, buckets = [[None]],
       locks = [\<lparr>elem_counter = 0, is_migrated = True\<rparr>],
       minimum_load_factor = Finite (1 / 2), maximum_hashpower = None\<rparr>) \<and>
   (0 :: real) \<le> 1 / 4 \<and> (1 / 4 :: real) \<le> 1 \<and>
   set_minimum_load_factor (Finite (1 / 4))
     \<lparr>hashpower = 0, buckets = [[None :: (nat, nat) slot]],
      locks = [\<lparr>elem_counter = 0, is_migrated = True\<rparr>],
      minimum_load_factor = Finite (1 / 2), maximum_hashpower = None\<rparr> =
     (Inr (),
      \<lparr>hashpower = 0, buckets = [[None]],
       locks = [\<lparr>elem_counter = 0, is_migrated = True\<rparr>],
       minimum_load_factor = Finite (1 / 4), maximum_hashpower = None\<rparr>)"
  using minimum_load_factor_setter[of "Finite 2"
      "\<lparr>hashpower = 0, buckets = [[None :: (nat, nat) slot]],
        locks = [\<lparr>elem_counter = 0, is_migrated = True\<rparr>],
        minimum_load_factor = Finite (1 / 2), maximum_hashpower = None\<rparr>" "1 / 4"]
  by simp

section \<open>The queue of the breadth-first search\<close>

lemma const_pow_eq: "const_pow a b = a ^ b"
  by (induction b) simp_all

lemma geo_pos: "0 < geo S n"
  by (cases n) simp_all

lemma geo_closed: "(S - 1) * geo S n + 1 = S ^ (Suc n)" if "0 < S"
proof (induction n)
  case 0
  then show ?case using that by simp
next
  case (Suc n)
  have "(S - 1) * geo S (Suc n) + 1 = (S - 1) + S * ((S - 1) * geo S n) + 1"
    by (simp add: algebra_simps)
  also have "\<dots> = (S - 1) + S * (S ^ Suc n - 1) + 1"
    using Suc by (metis add_diff_cancel_right')
  also have "\<dots> = S ^ Suc (Suc n)"
  proof -
    have "1 \<le> S ^ Suc n" using that by simp
    then have "S * (S ^ Suc n - 1) = S * S ^ Suc n - S"
      by (simp add: diff_mult_distrib2)
    moreover have "S \<le> S * S ^ Suc n" using that by simp
    ultimately show ?thesis using that by simp
  qed
  finally show ?case .
qed

lemma MAX_geo:
  assumes "0 < slot_per_bucket cfg"
  shows "MAX_CUCKOO_COUNT cfg = 2 * geo (slot_per_bucket cfg) 4"
proof (cases "slot_per_bucket cfg = 1")
  case True
  then show ?thesis
    by (simp add: MAX_CUCKOO_COUNT_def MAX_BFS_PATH_LEN_def numeral_eq_Suc)
next
  case False
  define S where "S = slot_per_bucket cfg"
  have S: "1 < S" using assms False by (simp add: S_def)
  have "(S - 1) * geo S 4 + 1 = S ^ 5"
    using geo_closed[of S 4] S by simp
  then have "(S ^ 5 - 1) = geo S 4 * (S - 1)"
    by (simp add: mult.commute)
  then have "(S ^ 5 - 1) div (S - 1) = geo S 4"
    using S by simp
  then show ?thesis
    using False by (simp add: MAX_CUCKOO_COUNT_def MAX_BFS_PATH_LEN_def const_pow_eq S_def)
qed

lemma weight_pos: "0 < weight cfg d"
  by (simp add: weight_def geo_pos)

lemma weight_step:
  assumes "d < int MAX_BFS_PATH_LEN - 1"
  shows "weight cfg d = 1 + slot_per_bucket cfg * weight cfg (d + 1)"
proof -
  have "nat (int MAX_BFS_PATH_LEN - 1 - d) = Suc (nat (int MAX_BFS_PATH_LEN - 1 - (d + 1)))"
    using assms by simp
  then show ?thesis
    by (simp add: weight_def)
qed

lemma weight_leaf:
  assumes "\<not> d < int MAX_BFS_PATH_LEN - 1"
  shows "weight cfg d = 1"
  using assms by (simp add: weight_def)

lemma length_le_sum_weights: "length xs \<le> sum_list (map (\<lambda>x. weight cfg (bs_depth x)) xs)"
proof (induction xs)
  case Nil
  then show ?case by simp
next
  case (Cons a xs)
  then show ?case using weight_pos[of cfg "bs_depth a"] by simp
qed

lemma last_le_potential:
  assumes "queue_inv cfg q"
  shows "q_last q \<le> potential cfg q"
proof -
  have "length (pending q) = q_last q - q_first q"
    by (simp add: pending_def)
  then show ?thesis
    using length_le_sum_weights[of "pending q" cfg] assms
    by (simp add: potential_def queue_inv_def)
qed

lemma enqueue_ok:
  assumes inv: "queue_inv cfg q" and budget: "potential cfg q < MAX_CUCKOO_COUNT cfg"
  shows "\<exists>q'. enqueue cfg q y = Some q' \<and> queue_inv cfg q' \<and> q_first q' = q_first q \<and>
           q_last q' = q_last q + 1 \<and>
           potential cfg q' = potential cfg q + weight cfg (bs_depth y)"
proof -
  have last: "q_last q < MAX_CUCKOO_COUNT cfg"
    using last_le_potential[OF inv] budget by simp
  define q' where "q' = q\<lparr>q_slots := (q_slots q)[q_last q := y], q_last := q_last q + 1\<rparr>"
  have enq: "enqueue cfg q y = Some q'"
    using last by (simp add: enqueue_def b_queue_full_def q'_def)
  have len: "q_last q < length (q_slots q)" and fl: "q_first q \<le> q_last q"
    using inv last by (simp_all add: queue_inv_def)
  have "pending q' = pending q @ [y]"
    using len fl by (simp add: pending_def q'_def nth_list_update)
  then have "potential cfg q' = potential cfg q + weight cfg (bs_depth y)"
    by (simp add: potential_def q'_def)
  moreover have "queue_inv cfg q'"
    using inv by (simp add: queue_inv_def q'_def)
  ultimately show ?thesis
    using enq by (simp add: q'_def)
qed

lemma slot_search_slots_ok:
  assumes "queue_inv cfg q"
    and "(if bs_depth x < int MAX_BFS_PATH_LEN - 1
          then potential cfg q + (slot_per_bucket cfg - i) * weight cfg (bs_depth x + 1)
          else potential cfg q) \<le> MAX_CUCKOO_COUNT cfg"
  shows "\<exists>r q'. slot_search_slots cfg hp b x starting_slot i q = Some (r, q') \<and>
           queue_inv cfg q' \<and> potential cfg q' \<le> MAX_CUCKOO_COUNT cfg \<and>
           q_first q' = q_first q"
  using assms
proof (induction cfg hp b x starting_slot i q rule: slot_search_slots.induct)
  case (1 cfg hp b x starting_slot i q)
  show ?case
  proof (cases "i < slot_per_bucket cfg")
    case False
    then show ?thesis
      using "1.prems" by (subst slot_search_slots.simps) (simp split: if_splits)
  next
    case inrange: True
    define sl where "sl = (starting_slot + i) mod slot_per_bucket cfg"
    show ?thesis
    proof (cases "occupied b sl")
      case False
      then show ?thesis
        using "1.prems" inrange
        by (subst slot_search_slots.simps) (simp add: sl_def Let_def split: if_splits)
    next
      case occ: True
      show ?thesis
      proof (cases "bs_depth x < int MAX_BFS_PATH_LEN - 1")
        case False
        have "\<exists>r q'. slot_search_slots cfg hp b x starting_slot (i + 1) q = Some (r, q') \<and>
           queue_inv cfg q' \<and> potential cfg q' \<le> MAX_CUCKOO_COUNT cfg \<and>
           q_first q' = q_first q"
          using "1.IH"(2)[OF inrange sl_def _ refl False] occ "1.prems" False by simp
        then show ?thesis
          using inrange occ False
          by (subst slot_search_slots.simps) (simp add: sl_def Let_def)
      next
        case deep: True
        define y where "y = \<lparr>bs_bucket = alt_index hp (slot_partial b sl) (bs_bucket x),
                     bs_pathcode = bs_pathcode x * of_nat (slot_per_bucket cfg) + of_nat sl,
                     bs_depth = bs_depth x + 1\<rparr>"
        have bud: "potential cfg q + (slot_per_bucket cfg - i) * weight cfg (bs_depth x + 1)
                    \<le> MAX_CUCKOO_COUNT cfg"
          using "1.prems"(2) deep by simp
        have split: "(slot_per_bucket cfg - i) * weight cfg (bs_depth x + 1) =
              weight cfg (bs_depth x + 1) + (slot_per_bucket cfg - (i + 1)) * weight cfg (bs_depth x + 1)"
          using inrange by (metis Suc_diff_Suc Suc_eq_plus1 mult_Suc)
        have "potential cfg q < MAX_CUCKOO_COUNT cfg"
          using bud split weight_pos[of cfg "bs_depth x + 1"] by linarith
        from enqueue_ok[OF "1.prems"(1) this, of y]
        obtain q1 where q1: "enqueue cfg q y = Some q1" "queue_inv cfg q1"
            "q_first q1 = q_first q"
            "potential cfg q1 = potential cfg q + weight cfg (bs_depth y)"
          by blast
        have bud1: "(if bs_depth x < int MAX_BFS_PATH_LEN - 1
          then potential cfg q1 + (slot_per_bucket cfg - (i + 1)) * weight cfg (bs_depth x + 1)
          else potential cfg q1) \<le> MAX_CUCKOO_COUNT cfg"
          using bud split q1(4) deep by (simp add: y_def)
        have "\<exists>r q'. slot_search_slots cfg hp b x starting_slot (i + 1) q1 = Some (r, q') \<and>
           queue_inv cfg q' \<and> potential cfg q' \<le> MAX_CUCKOO_COUNT cfg \<and>
           q_first q' = q_first q1"
          using "1.IH"(1)[OF inrange sl_def _ refl deep, of q1] occ q1(1,2) bud1
          by (simp add: y_def)
        then show ?thesis
          using inrange occ deep q1(1,3)
          by (subst slot_search_slots.simps) (simp add: sl_def Let_def y_def)
      qed
    qed
  qed
qed

lemma slot_search_loop_ok:
  assumes "queue_inv cfg q" and "potential cfg q \<le> MAX_CUCKOO_COUNT cfg"
  shows "\<exists>x q' t'. slot_search_loop cfg hp q t = Some (x, q', t') \<and>
           q_last q' \<le> MAX_CUCKOO_COUNT cfg"
  using assms
proof (induction "MAX_CUCKOO_COUNT cfg - q_first q" arbitrary: q t rule: less_induct)
  case less
  show ?case
  proof (cases "b_queue_empty q")
    case True
    then show ?thesis
      using last_le_potential[OF less.prems(1)] less.prems(2)
      by (subst slot_search_loop.simps) simp
  next
    case False
    then have fl: "q_first q < q_last q"
      using less.prems(1) by (simp add: b_queue_empty_def queue_inv_def)
    have lastM: "q_last q \<le> MAX_CUCKOO_COUNT cfg"
      using last_le_potential[OF less.prems(1)] less.prems(2) by simp
    define x where "x = q_slots q ! q_first q"
    define q1 where "q1 = q\<lparr>q_first := q_first q + 1\<rparr>"
    have deq: "dequeue q = Some (x, q1)"
      using False fl by (simp add: dequeue_def x_def q1_def)
    have pend: "pending q = x # pending q1"
      using fl by (simp add: pending_def q1_def x_def upt_conv_Cons)
    have pot: "potential cfg q + 1 = potential cfg q1 + weight cfg (bs_depth x)"
      using pend by (simp add: potential_def q1_def)
    have inv1: "queue_inv cfg q1"
      using less.prems(1) fl by (simp add: queue_inv_def q1_def)
    have bud: "(if bs_depth x < int MAX_BFS_PATH_LEN - 1
          then potential cfg q1 + (slot_per_bucket cfg - 0) * weight cfg (bs_depth x + 1)
          else potential cfg q1) \<le> MAX_CUCKOO_COUNT cfg"
    proof (cases "bs_depth x < int MAX_BFS_PATH_LEN - 1")
      case True
      then show ?thesis
        using pot weight_step[OF True, of cfg] less.prems(2) by simp
    next
      case False
      then show ?thesis
        using pot weight_leaf[OF False, of cfg] less.prems(2) by simp
    qed
    define t1 where "t1 = lock_one cfg hp (bs_bucket x) t"
    define b where "b = get_bucket t1 (bs_bucket x)"
    define st where "st = unat (bs_pathcode x) mod slot_per_bucket cfg"
    from slot_search_slots_ok[OF inv1 bud, of hp b st]
    obtain r q2 where r: "slot_search_slots cfg hp b x st 0 q1 = Some (r, q2)"
        "queue_inv cfg q2" "potential cfg q2 \<le> MAX_CUCKOO_COUNT cfg" "q_first q2 = q_first q1"
      by blast
    show ?thesis
    proof (cases r)
      case (Some found)
      then show ?thesis
        using False deq r(1) last_le_potential[OF r(2)] r(3)
        by (subst slot_search_loop.simps) (simp add: Let_def t1_def b_def st_def)
    next
      case None
      have "MAX_CUCKOO_COUNT cfg - q_first q2 < MAX_CUCKOO_COUNT cfg - q_first q"
        using r(4) fl lastM by (simp add: q1_def)
      from less.hyps[OF this r(2) r(3), of t1]
      show ?thesis
        using False deq r(1) None
        by (subst slot_search_loop.simps) (simp add: Let_def t1_def b_def st_def)
    qed
  qed
qed

lemma slot_search_start_ok:
  assumes "0 < slot_per_bucket cfg"
  shows "\<exists>q. slot_search_start cfg i1 i2 = Some q \<and> queue_inv cfg q \<and>
           potential cfg q \<le> MAX_CUCKOO_COUNT cfg"
proof -
  have M: "MAX_CUCKOO_COUNT cfg = 2 * geo (slot_per_bucket cfg) 4"
    by (rule MAX_geo[OF assms])
  have g: "0 < geo (slot_per_bucket cfg) 4" by (rule geo_pos)
  obtain n where n: "MAX_CUCKOO_COUNT cfg = Suc (Suc n)"
    using M g by (metis Suc_pred mult_2 add_Suc add_Suc_right)
  have w0: "weight cfg 0 = geo (slot_per_bucket cfg) 4"
    by (simp add: weight_def MAX_BFS_PATH_LEN_def)
  show ?thesis
    using n w0 M
    by (simp add: slot_search_start_def enqueue_def b_queue_full_def b_queue_new_def
        queue_inv_def potential_def pending_def upt_rec)
qed

text \<open>
  Claim C9. For every search started by \<open>run_cuckoo\<close> with two starting buckets and the
  path length bound \<open>MAX_BFS_PATH_LEN\<close>, the number of entries ever put into the queue
  (the final value of \<open>last_\<close>) is at most \<open>MAX_CUCKOO_COUNT\<close>; this is
  \<open>2 * (S ^ L - 1) / (S - 1)\<close> for \<open>S > 1\<close> slots per bucket and \<open>2 * L\<close> for
  \<open>S = 1\<close>, in both cases twice \<open>1 + S + \<dots> + S ^ (L - 1)\<close>. So the search
  returns: no \<open>enqueue\<close> finds the queue full and no assertion of the queue fails.
\<close>

theorem bfs_queue_never_overflows:
  assumes "config_ok cfg"
  shows "\<exists>q0 x q' t'.
           slot_search_start cfg i1 i2 = Some q0 \<and>
           slot_search_loop cfg hp q0 t = Some (x, q', t') \<and>
           slot_search cfg hp i1 i2 t = Some (x, t') \<and>
           q_last q' \<le> MAX_CUCKOO_COUNT cfg \<and>
           MAX_CUCKOO_COUNT cfg = 2 * geo (slot_per_bucket cfg) (MAX_BFS_PATH_LEN - 1) \<and>
           (1 < slot_per_bucket cfg \<longrightarrow>
              MAX_CUCKOO_COUNT cfg =
                2 * ((slot_per_bucket cfg ^ MAX_BFS_PATH_LEN - 1) div (slot_per_bucket cfg - 1)))"
proof -
  have S: "0 < slot_per_bucket cfg"
    using assms by (simp add: config_ok_def)
  obtain q0 where q0: "slot_search_start cfg i1 i2 = Some q0" "queue_inv cfg q0"
      "potential cfg q0 \<le> MAX_CUCKOO_COUNT cfg"
    using slot_search_start_ok[OF S] by blast
  obtain x q' t' where r: "slot_search_loop cfg hp q0 t = Some (x, q', t')"
      "q_last q' \<le> MAX_CUCKOO_COUNT cfg"
    using slot_search_loop_ok[OF q0(2,3)] by blast
  have "slot_search cfg hp i1 i2 t = Some (x, t')"
    using q0(1) r(1) by (simp add: slot_search_def)
  moreover have "MAX_CUCKOO_COUNT cfg = 2 * geo (slot_per_bucket cfg) (MAX_BFS_PATH_LEN - 1)"
    using MAX_geo[OF S] by (simp add: MAX_BFS_PATH_LEN_def)
  moreover have "1 < slot_per_bucket cfg \<longrightarrow> MAX_CUCKOO_COUNT cfg =
      2 * ((slot_per_bucket cfg ^ MAX_BFS_PATH_LEN - 1) div (slot_per_bucket cfg - 1))"
    by (simp add: MAX_CUCKOO_COUNT_def const_pow_eq)
  ultimately show ?thesis
    using q0(1) r by blast
qed

section \<open>Scanning a bucket\<close>

lemma try_read_loop_step:
  assumes "i < slot_per_bucket cfg"
  shows "try_read_from_bucket_loop cfg b p key i =
        (if slot_matches cfg b p key i then int i
         else try_read_from_bucket_loop cfg b p key (i + 1))"
  using assms by (subst try_read_from_bucket_loop.simps) (auto simp add: slot_matches_def)

lemma try_read_loop_end:
  assumes "\<not> i < slot_per_bucket cfg"
  shows "try_read_from_bucket_loop cfg b p key i = - 1"
  using assms by (subst try_read_from_bucket_loop.simps) simp

lemma try_read_loop_none:
  "try_read_from_bucket_loop cfg b p key i = - 1 \<longleftrightarrow>
     (\<forall>j. i \<le> j \<and> j < slot_per_bucket cfg \<longrightarrow> \<not> slot_matches cfg b p key j)"
proof (induction "slot_per_bucket cfg - i" arbitrary: i)
  case 0
  then have "\<not> i < slot_per_bucket cfg" by simp
  then show ?case using try_read_loop_end[of i cfg b p key] by auto
next
  case (Suc n)
  then have lt: "i < slot_per_bucket cfg" by simp
  have n: "n = slot_per_bucket cfg - (i + 1)" using Suc(2) by simp
  note IH = Suc(1)[OF n]
  show ?case
  proof (cases "slot_matches cfg b p key i")
    case True
    then have "try_read_from_bucket_loop cfg b p key i = int i"
      using try_read_loop_step[OF lt, of b p key] by simp
    moreover have "i \<le> i \<and> i < slot_per_bucket cfg" using lt by simp
    ultimately show ?thesis using True by force
  next
    case False
    then have eq: "try_read_from_bucket_loop cfg b p key i =
        try_read_from_bucket_loop cfg b p key (i + 1)"
      using try_read_loop_step[OF lt, of b p key] by simp
    have "(\<forall>j. i \<le> j \<and> j < slot_per_bucket cfg \<longrightarrow> \<not> slot_matches cfg b p key j) \<longleftrightarrow>
        (\<forall>j. i + 1 \<le> j \<and> j < slot_per_bucket cfg \<longrightarrow> \<not> slot_matches cfg b p key j)"
    proof
      assume a: "\<forall>j. i \<le> j \<and> j < slot_per_bucket cfg \<longrightarrow> \<not> slot_matches cfg b p key j"
      show "\<forall>j. i + 1 \<le> j \<and> j < slot_per_bucket cfg \<longrightarrow> \<not> slot_matches cfg b p key j"
      proof (intro allI impI)
        fix j assume "i + 1 \<le> j \<and> j < slot_per_bucket cfg"
        then have "i \<le> j \<and> j < slot_per_bucket cfg" by simp
        then show "\<not> slot_matches cfg b p key j" using a by blast
      qed
    next
      assume a: "\<forall>j. i + 1 \<le> j \<and> j < slot_per_bucket cfg \<longrightarrow> \<not> slot_matches cfg b p key j"
      show "\<forall>j. i \<le> j \<and> j < slot_per_bucket cfg \<longrightarrow> \<not> slot_matches cfg b p key j"
      proof (intro allI impI)
        fix j assume j: "i \<le> j \<and> j < slot_per_bucket cfg"
        show "\<not> slot_matches cfg b p key j"
        proof (cases "j = i")
          case True
          then show ?thesis using False by simp
        next
          case ne: False
          then have "i + 1 \<le> j \<and> j < slot_per_bucket cfg" using j by simp
          then show ?thesis using a by blast
        qed
      qed
    qed
    then show ?thesis using eq IH by simp
  qed
qed

lemma try_read_loop_found:
  assumes "try_read_from_bucket_loop cfg b p key i \<noteq> - 1"
  shows "\<exists>r. try_read_from_bucket_loop cfg b p key i = int r \<and> i \<le> r \<and>
            r < slot_per_bucket cfg \<and> slot_matches cfg b p key r \<and>
            (\<forall>j. i \<le> j \<and> j < r \<longrightarrow> \<not> slot_matches cfg b p key j)"
  using assms
proof (induction "slot_per_bucket cfg - i" arbitrary: i)
  case 0
  then have "\<not> i < slot_per_bucket cfg" by simp
  then show ?case using try_read_loop_end[of i cfg b p key] "0.prems" by simp
next
  case (Suc n)
  then have lt: "i < slot_per_bucket cfg" by simp
  have n: "n = slot_per_bucket cfg - (i + 1)" using Suc(2) by simp
  show ?case
  proof (cases "slot_matches cfg b p key i")
    case True
    then have "try_read_from_bucket_loop cfg b p key i = int i"
      using try_read_loop_step[OF lt, of b p key] by simp
    then have "try_read_from_bucket_loop cfg b p key i = int i \<and> i \<le> i \<and>
            i < slot_per_bucket cfg \<and> slot_matches cfg b p key i \<and>
            (\<forall>j. i \<le> j \<and> j < i \<longrightarrow> \<not> slot_matches cfg b p key j)"
      using True lt by auto
    then show ?thesis by (rule exI)
  next
    case False
    then have eq: "try_read_from_bucket_loop cfg b p key i =
        try_read_from_bucket_loop cfg b p key (i + 1)"
      using try_read_loop_step[OF lt, of b p key] by simp
    then have "try_read_from_bucket_loop cfg b p key (i + 1) \<noteq> - 1"
      using Suc.prems by simp
    from Suc(1)[OF n this]
    obtain r where r: "try_read_from_bucket_loop cfg b p key (i + 1) = int r"
        "i + 1 \<le> r" "r < slot_per_bucket cfg" "slot_matches cfg b p key r"
        "\<forall>j. i + 1 \<le> j \<and> j < r \<longrightarrow> \<not> slot_matches cfg b p key j"
      by blast
    have "\<forall>j. i \<le> j \<and> j < r \<longrightarrow> \<not> slot_matches cfg b p key j"
    proof (intro allI impI)
      fix j assume j: "i \<le> j \<and> j < r"
      show "\<not> slot_matches cfg b p key j"
      proof (cases "j = i")
        case True
        then show ?thesis using False by simp
      next
        case ne: False
        then have "i + 1 \<le> j \<and> j < r" using j by simp
        then show ?thesis using r(5) by blast
      qed
    qed
    moreover have "i \<le> r" using r(2) by simp
    ultimately have "try_read_from_bucket_loop cfg b p key i = int r \<and> i \<le> r \<and>
            r < slot_per_bucket cfg \<and> slot_matches cfg b p key r \<and>
            (\<forall>j. i \<le> j \<and> j < r \<longrightarrow> \<not> slot_matches cfg b p key j)"
      using eq r by simp
    then show ?thesis by (rule exI)
  qed
qed

lemma try_read_none_iff:
  "try_read_from_bucket cfg b p key = - 1 \<longleftrightarrow> \<not> bucket_has_key cfg b p key"
  by (simp add: try_read_from_bucket_def try_read_loop_none bucket_has_key_def)

lemma try_read_found:
  assumes "try_read_from_bucket cfg b p key \<noteq> - 1"
  shows "\<exists>r. try_read_from_bucket cfg b p key = int r \<and> r < slot_per_bucket cfg \<and>
            slot_matches cfg b p key r \<and> (\<forall>j < r. \<not> slot_matches cfg b p key j)"
  using try_read_loop_found[of cfg b p key 0] assms
  by (auto simp add: try_read_from_bucket_def)

text \<open>try_find_insert_bucket\<close>


lemma tfib_loop_dup:
  assumes "try_read_from_bucket_loop cfg b p key i \<noteq> - 1"
  shows "try_find_insert_bucket_loop cfg b p key i s0 =
           (False, try_read_from_bucket_loop cfg b p key i)"
  using assms
proof (induction cfg b p key i s0 rule: try_find_insert_bucket_loop.induct)
  case (1 cfg b p key i s0)
  show ?case
  proof (cases "i < slot_per_bucket cfg")
    case False
    then show ?thesis
      using "1.prems" by (subst (asm) try_read_from_bucket_loop.simps) simp
  next
    case True
    note rd = try_read_loop_step[OF True, of b p key]
    show ?thesis
    proof (cases "slot_matches cfg b p key i")
      case m: True
      then show ?thesis
        using True rd
        by (subst try_find_insert_bucket_loop.simps) (auto simp add: slot_matches_def)
    next
      case nm: False
      then have ne: "try_read_from_bucket_loop cfg b p key (i + 1) \<noteq> - 1"
        using rd "1.prems" by simp
      show ?thesis
      proof (cases "occupied b i")
        case occ: True
        show ?thesis
        proof (cases "\<not> is_simple cfg \<and> p \<noteq> slot_partial b i")
          case True
          then show ?thesis
            using \<open>i < slot_per_bucket cfg\<close> occ nm rd "1.IH"(1)[OF \<open>i < slot_per_bucket cfg\<close> occ True ne]
            by (subst try_find_insert_bucket_loop.simps) simp
        next
          case False
          have kne: "slot_key b i \<noteq> key"
            using nm occ False by (auto simp add: slot_matches_def)
          show ?thesis
            using \<open>i < slot_per_bucket cfg\<close> occ nm rd kne False
              "1.IH"(2)[OF \<open>i < slot_per_bucket cfg\<close> occ False kne ne]
            by (subst try_find_insert_bucket_loop.simps) simp
        qed
      next
        case nocc: False
        show ?thesis
          using \<open>i < slot_per_bucket cfg\<close> nocc nm rd
              "1.IH"(3)[OF \<open>i < slot_per_bucket cfg\<close> nocc ne]
          by (subst try_find_insert_bucket_loop.simps) simp
      qed
    qed
  qed
qed

lemma empty_from_step:
  assumes "i < slot_per_bucket cfg"
  shows "(\<exists>j. i \<le> j \<and> j < slot_per_bucket cfg \<and> \<not> occupied b j) \<longleftrightarrow>
        \<not> occupied b i \<or> (\<exists>j. i + 1 \<le> j \<and> j < slot_per_bucket cfg \<and> \<not> occupied b j)"
proof
  assume "\<exists>j. i \<le> j \<and> j < slot_per_bucket cfg \<and> \<not> occupied b j"
  then obtain j where j: "i \<le> j" "j < slot_per_bucket cfg" "\<not> occupied b j" by blast
  show "\<not> occupied b i \<or> (\<exists>j. i + 1 \<le> j \<and> j < slot_per_bucket cfg \<and> \<not> occupied b j)"
  proof (cases "j = i")
    case True
    then show ?thesis using j by simp
  next
    case False
    then have "i + 1 \<le> j" using j(1) by simp
    then show ?thesis using j by blast
  qed
next
  assume "\<not> occupied b i \<or> (\<exists>j. i + 1 \<le> j \<and> j < slot_per_bucket cfg \<and> \<not> occupied b j)"
  then show "\<exists>j. i \<le> j \<and> j < slot_per_bucket cfg \<and> \<not> occupied b j"
  proof
    assume "\<not> occupied b i"
    then have "i \<le> i \<and> i < slot_per_bucket cfg \<and> \<not> occupied b i" using assms by simp
    then show ?thesis by (rule exI)
  next
    assume "\<exists>j. i + 1 \<le> j \<and> j < slot_per_bucket cfg \<and> \<not> occupied b j"
    then obtain j where "i + 1 \<le> j" "j < slot_per_bucket cfg" "\<not> occupied b j" by blast
    then have "i \<le> j \<and> j < slot_per_bucket cfg \<and> \<not> occupied b j" by simp
    then show ?thesis by (rule exI)
  qed
qed

lemma tfib_loop_nodup:
  assumes "try_read_from_bucket_loop cfg b p key i = - 1"
  shows "\<exists>s. try_find_insert_bucket_loop cfg b p key i s0 = (True, s) \<and>
           (if \<exists>j. i \<le> j \<and> j < slot_per_bucket cfg \<and> \<not> occupied b j
            then \<exists>e. s = int e \<and> i \<le> e \<and> is_last_empty_slot cfg b e
            else s = s0)"
  using assms
proof (induction cfg b p key i s0 rule: try_find_insert_bucket_loop.induct)
  case (1 cfg b p key i s0)
  show ?case
  proof (cases "i < slot_per_bucket cfg")
    case False
    then have e: "try_find_insert_bucket_loop cfg b p key i s0 = (True, s0)"
      by (subst try_find_insert_bucket_loop.simps) simp
    have ne: "\<not> (\<exists>j. i \<le> j \<and> j < slot_per_bucket cfg \<and> \<not> occupied b j)"
      using False by auto
    show ?thesis
      unfolding if_not_P[OF ne] using e by simp
  next
    case True
    note rd = try_read_loop_step[OF True, of b p key]
    have nm: "\<not> slot_matches cfg b p key i"
      using rd "1.prems" by (auto split: if_splits)
    then have nx: "try_read_from_bucket_loop cfg b p key (i + 1) = - 1"
      using rd "1.prems" by simp
    note range = empty_from_step[OF True, of b]
    show ?thesis
    proof (cases "occupied b i")
      case occ: True
      have step: "try_find_insert_bucket_loop cfg b p key i s0 =
                  try_find_insert_bucket_loop cfg b p key (i + 1) s0"
        using True occ nm
        by (subst try_find_insert_bucket_loop.simps) (auto simp add: slot_matches_def)
      have IH: "\<exists>s. try_find_insert_bucket_loop cfg b p key (i + 1) s0 = (True, s) \<and>
           (if \<exists>j. i + 1 \<le> j \<and> j < slot_per_bucket cfg \<and> \<not> occupied b j
            then \<exists>e. s = int e \<and> i + 1 \<le> e \<and> is_last_empty_slot cfg b e
            else s = s0)"
      proof (cases "\<not> is_simple cfg \<and> p \<noteq> slot_partial b i")
        case c: True
        show ?thesis by (rule "1.IH"(1)[OF True occ c nx])
      next
        case c: False
        have kne: "slot_key b i \<noteq> key"
          using nm occ c by (auto simp add: slot_matches_def)
        show ?thesis by (rule "1.IH"(2)[OF True occ c kne nx])
      qed
      then obtain s where s: "try_find_insert_bucket_loop cfg b p key (i + 1) s0 = (True, s)"
          "(if \<exists>j. i + 1 \<le> j \<and> j < slot_per_bucket cfg \<and> \<not> occupied b j
            then \<exists>e. s = int e \<and> i + 1 \<le> e \<and> is_last_empty_slot cfg b e
            else s = s0)"
        by blast
      show ?thesis
      proof (cases "\<exists>j. i + 1 \<le> j \<and> j < slot_per_bucket cfg \<and> \<not> occupied b j")
        case ex: True
        then obtain e where e: "s = int e" "i + 1 \<le> e" "is_last_empty_slot cfg b e"
          using s(2) by auto
        have "s = int e \<and> i \<le> e \<and> is_last_empty_slot cfg b e" using e by simp
        then have "\<exists>e. s = int e \<and> i \<le> e \<and> is_last_empty_slot cfg b e" by (rule exI)
        moreover have "\<exists>j. i \<le> j \<and> j < slot_per_bucket cfg \<and> \<not> occupied b j"
          using range ex by simp
        ultimately show ?thesis
          unfolding if_P[OF \<open>\<exists>j. i \<le> j \<and> j < slot_per_bucket cfg \<and> \<not> occupied b j\<close>]
          using step s(1) by simp
      next
        case nex: False
        then have "s = s0" using s(2) by simp
        moreover have ne: "\<not> (\<exists>j. i \<le> j \<and> j < slot_per_bucket cfg \<and> \<not> occupied b j)"
          using range nex occ by simp
        ultimately show ?thesis
          unfolding if_not_P[OF ne] using step s(1) by simp
      qed
    next
      case nocc: False
      have step: "try_find_insert_bucket_loop cfg b p key i s0 =
                  try_find_insert_bucket_loop cfg b p key (i + 1) (int i)"
        using True nocc
        by (subst try_find_insert_bucket_loop.simps) simp
      obtain s where s: "try_find_insert_bucket_loop cfg b p key (i + 1) (int i) = (True, s)"
          "(if \<exists>j. i + 1 \<le> j \<and> j < slot_per_bucket cfg \<and> \<not> occupied b j
            then \<exists>e. s = int e \<and> i + 1 \<le> e \<and> is_last_empty_slot cfg b e
            else s = int i)"
        using "1.IH"(3)[OF True nocc nx] by blast
      have ex0: "\<exists>j. i \<le> j \<and> j < slot_per_bucket cfg \<and> \<not> occupied b j"
        using range nocc by simp
      show ?thesis
      proof (cases "\<exists>j. i + 1 \<le> j \<and> j < slot_per_bucket cfg \<and> \<not> occupied b j")
        case ex: True
        then obtain e where e: "s = int e" "i + 1 \<le> e" "is_last_empty_slot cfg b e"
          using s(2) by auto
        have "s = int e \<and> i \<le> e \<and> is_last_empty_slot cfg b e" using e by simp
        then have "\<exists>e. s = int e \<and> i \<le> e \<and> is_last_empty_slot cfg b e" by (rule exI)
        then show ?thesis
          unfolding if_P[OF ex0] using step s(1) by simp
      next
        case nex: False
        then have si: "s = int i" using s(2) by simp
        have "\<forall>j < slot_per_bucket cfg. i < j \<longrightarrow> occupied b j"
        proof (intro allI impI)
          fix j assume "j < slot_per_bucket cfg" "i < j"
          then have "i + 1 \<le> j \<and> j < slot_per_bucket cfg" by simp
          then show "occupied b j" using nex by blast
        qed
        then have "is_last_empty_slot cfg b i"
          using True nocc by (simp add: is_last_empty_slot_def)
        then have "s = int i \<and> i \<le> i \<and> is_last_empty_slot cfg b i" using si by simp
        then have "\<exists>e. s = int e \<and> i \<le> e \<and> is_last_empty_slot cfg b e" by (rule exI)
        then show ?thesis
          unfolding if_P[OF ex0] using step s(1) by simp
      qed
    qed
  qed
qed

lemma tfib_dup:
  assumes "bucket_has_key cfg b p key"
  shows "try_find_insert_bucket cfg b p key = (False, try_read_from_bucket cfg b p key)"
  using assms tfib_loop_dup[of cfg b p key 0 "- 1"] try_read_none_iff[of cfg b p key]
  by (simp add: try_find_insert_bucket_def try_read_from_bucket_def)

lemma tfib_nodup_empty:
  assumes "\<not> bucket_has_key cfg b p key" and "has_empty_slot cfg b"
  shows "\<exists>e. try_find_insert_bucket cfg b p key = (True, int e) \<and> is_last_empty_slot cfg b e"
proof -
  have rd: "try_read_from_bucket_loop cfg b p key 0 = - 1"
    using assms(1) try_read_none_iff[of cfg b p key] by (simp add: try_read_from_bucket_def)
  have ex: "\<exists>j. 0 \<le> j \<and> j < slot_per_bucket cfg \<and> \<not> occupied b j"
    using assms(2) by (simp add: has_empty_slot_def)
  from tfib_loop_nodup[OF rd, of "- 1"] ex
  show ?thesis
    by (auto simp add: try_find_insert_bucket_def)
qed

lemma tfib_nodup_full:
  assumes "\<not> bucket_has_key cfg b p key" and "\<not> has_empty_slot cfg b"
  shows "try_find_insert_bucket cfg b p key = (True, - 1)"
proof -
  have rd: "try_read_from_bucket_loop cfg b p key 0 = - 1"
    using assms(1) try_read_none_iff[of cfg b p key] by (simp add: try_read_from_bucket_def)
  have ex: "\<not> (\<exists>j. 0 \<le> j \<and> j < slot_per_bucket cfg \<and> \<not> occupied b j)"
    using assms(2) by (simp add: has_empty_slot_def)
  from tfib_loop_nodup[OF rd, of "- 1"] ex
  show ?thesis
    by (auto simp add: try_find_insert_bucket_def)
qed

section \<open>Where an insert puts the pair\<close>

lemma cuckoo_insert_first_bucket:
  assumes "\<not> bucket_has_key cfg (get_bucket t (tb_i1 b)) (partial hv) key"
    and "\<not> bucket_has_key cfg (get_bucket t (tb_i2 b)) (partial hv) key"
    and "has_empty_slot cfg (get_bucket t (tb_i1 b))"
  shows "\<exists>e. is_last_empty_slot cfg (get_bucket t (tb_i1 b)) e \<and>
           cuckoo_insert cfg hv b key t =
             Some (\<lparr>pos_index = tb_i1 b, pos_slot = e, pos_status = ok\<rparr>, b, t)"
proof -
  obtain e where e: "try_find_insert_bucket cfg (get_bucket t (tb_i1 b)) (partial hv) key = (True, int e)"
      "is_last_empty_slot cfg (get_bucket t (tb_i1 b)) e"
    using tfib_nodup_empty[OF assms(1,3)] by blast
  have "fst (try_find_insert_bucket cfg (get_bucket t (tb_i2 b)) (partial hv) key)"
  proof (cases "has_empty_slot cfg (get_bucket t (tb_i2 b))")
    case True
    then show ?thesis using tfib_nodup_empty[OF assms(2)] by auto
  next
    case False
    then show ?thesis using tfib_nodup_full[OF assms(2)] by auto
  qed
  then have "cuckoo_insert cfg hv b key t =
             Some (\<lparr>pos_index = tb_i1 b, pos_slot = e, pos_status = ok\<rparr>, b, t)"
    using e(1) by (simp add: cuckoo_insert_def Let_def)
  then show ?thesis using e(2) by blast
qed

lemma cuckoo_insert_second_bucket:
  assumes "\<not> bucket_has_key cfg (get_bucket t (tb_i1 b)) (partial hv) key"
    and "\<not> bucket_has_key cfg (get_bucket t (tb_i2 b)) (partial hv) key"
    and "\<not> has_empty_slot cfg (get_bucket t (tb_i1 b))"
    and "has_empty_slot cfg (get_bucket t (tb_i2 b))"
  shows "\<exists>e. is_last_empty_slot cfg (get_bucket t (tb_i2 b)) e \<and>
           cuckoo_insert cfg hv b key t =
             Some (\<lparr>pos_index = tb_i2 b, pos_slot = e, pos_status = ok\<rparr>, b, t)"
proof -
  obtain e where e: "try_find_insert_bucket cfg (get_bucket t (tb_i2 b)) (partial hv) key = (True, int e)"
      "is_last_empty_slot cfg (get_bucket t (tb_i2 b)) e"
    using tfib_nodup_empty[OF assms(2,4)] by blast
  have "cuckoo_insert cfg hv b key t =
             Some (\<lparr>pos_index = tb_i2 b, pos_slot = e, pos_status = ok\<rparr>, b, t)"
    using e(1) tfib_nodup_full[OF assms(1,3)] by (simp add: cuckoo_insert_def Let_def)
  then show ?thesis using e(2) by blast
qed

lemma uprase_fn_of_ok:
  assumes "snapshot_and_lock_two cfg (hashed_key cfg key) t = (b, t0)"
    and "cuckoo_insert cfg (hashed_key cfg key) b key t0 =
           Some (\<lparr>pos_index = i, pos_slot = e, pos_status = ok\<rparr>, b, t0)"
  shows "uprase_fn cfg key fn val t =
           Some (Inr True, add_to_bucket (the (tb_lock1 b)) i e
                   (partial (hashed_key cfg key)) key val t0)"
  using assms
  by (simp add: uprase_fn_def Let_def cuckoo_insert_loop.simps)

text \<open>
  Claim C5, as amended. For every insert of an absent key with both candidate buckets
  locked, the scan of a candidate bucket for duplicates notes the last empty slot it
  meets (each empty slot overwrites the one noted before), and when a candidate bucket
  has an empty slot the new pair is constructed at that last empty slot, bucket 1 before
  bucket 2, and the element counter of the stripe held as \<open>lock1\<close> is incremented.
\<close>

theorem insert_at_last_empty_slot:
  assumes "snapshot_and_lock_two cfg (hashed_key cfg key) t = (b, t0)"
    and "\<not> bucket_has_key cfg (get_bucket t0 (tb_i1 b)) (partial (hashed_key cfg key)) key"
    and "\<not> bucket_has_key cfg (get_bucket t0 (tb_i2 b)) (partial (hashed_key cfg key)) key"
  shows "(has_empty_slot cfg (get_bucket t0 (tb_i1 b)) \<longrightarrow>
           (\<exists>e. is_last_empty_slot cfg (get_bucket t0 (tb_i1 b)) e \<and>
              try_find_insert_bucket cfg (get_bucket t0 (tb_i1 b))
                 (partial (hashed_key cfg key)) key = (True, int e) \<and>
              cuckoo_insert cfg (hashed_key cfg key) b key t0 =
                Some (\<lparr>pos_index = tb_i1 b, pos_slot = e, pos_status = ok\<rparr>, b, t0) \<and>
              insert_tbl cfg key val t =
                Some (Inr True, add_to_bucket (the (tb_lock1 b)) (tb_i1 b) e
                        (partial (hashed_key cfg key)) key val t0))) \<and>
         (\<not> has_empty_slot cfg (get_bucket t0 (tb_i1 b)) \<and>
          has_empty_slot cfg (get_bucket t0 (tb_i2 b)) \<longrightarrow>
           (\<exists>e. is_last_empty_slot cfg (get_bucket t0 (tb_i2 b)) e \<and>
              try_find_insert_bucket cfg (get_bucket t0 (tb_i2 b))
                 (partial (hashed_key cfg key)) key = (True, int e) \<and>
              cuckoo_insert cfg (hashed_key cfg key) b key t0 =
                Some (\<lparr>pos_index = tb_i2 b, pos_slot = e, pos_status = ok\<rparr>, b, t0) \<and>
              insert_tbl cfg key val t =
                Some (Inr True, add_to_bucket (the (tb_lock1 b)) (tb_i2 b) e
                        (partial (hashed_key cfg key)) key val t0)))"
proof (intro conjI impI)
  assume h: "has_empty_slot cfg (get_bucket t0 (tb_i1 b))"
  obtain e where e: "is_last_empty_slot cfg (get_bucket t0 (tb_i1 b)) e"
      "cuckoo_insert cfg (hashed_key cfg key) b key t0 =
         Some (\<lparr>pos_index = tb_i1 b, pos_slot = e, pos_status = ok\<rparr>, b, t0)"
    using cuckoo_insert_first_bucket[OF assms(2,3) h] by blast
  obtain e' where e': "try_find_insert_bucket cfg (get_bucket t0 (tb_i1 b))
                 (partial (hashed_key cfg key)) key = (True, int e')"
      "is_last_empty_slot cfg (get_bucket t0 (tb_i1 b)) e'"
    using tfib_nodup_empty[OF assms(2) h] by blast
  have "e' = e"
    using e(1) e'(2) by (metis is_last_empty_slot_def linorder_neqE_nat)
  then show "\<exists>e. is_last_empty_slot cfg (get_bucket t0 (tb_i1 b)) e \<and>
              try_find_insert_bucket cfg (get_bucket t0 (tb_i1 b))
                 (partial (hashed_key cfg key)) key = (True, int e) \<and>
              cuckoo_insert cfg (hashed_key cfg key) b key t0 =
                Some (\<lparr>pos_index = tb_i1 b, pos_slot = e, pos_status = ok\<rparr>, b, t0) \<and>
              insert_tbl cfg key val t =
                Some (Inr True, add_to_bucket (the (tb_lock1 b)) (tb_i1 b) e
                        (partial (hashed_key cfg key)) key val t0)"
    using e e' uprase_fn_of_ok[OF assms(1) e(2)]
    by (auto simp add: insert_tbl_def upsert_def)
next
  assume h: "\<not> has_empty_slot cfg (get_bucket t0 (tb_i1 b)) \<and>
          has_empty_slot cfg (get_bucket t0 (tb_i2 b))"
  obtain e where e: "is_last_empty_slot cfg (get_bucket t0 (tb_i2 b)) e"
      "cuckoo_insert cfg (hashed_key cfg key) b key t0 =
         Some (\<lparr>pos_index = tb_i2 b, pos_slot = e, pos_status = ok\<rparr>, b, t0)"
    using cuckoo_insert_second_bucket[OF assms(2,3)] h by blast
  obtain e' where e': "try_find_insert_bucket cfg (get_bucket t0 (tb_i2 b))
                 (partial (hashed_key cfg key)) key = (True, int e')"
      "is_last_empty_slot cfg (get_bucket t0 (tb_i2 b)) e'"
    using tfib_nodup_empty[OF assms(3)] h by blast
  have "e' = e"
    using e(1) e'(2) by (metis is_last_empty_slot_def linorder_neqE_nat)
  then show "\<exists>e. is_last_empty_slot cfg (get_bucket t0 (tb_i2 b)) e \<and>
              try_find_insert_bucket cfg (get_bucket t0 (tb_i2 b))
                 (partial (hashed_key cfg key)) key = (True, int e) \<and>
              cuckoo_insert cfg (hashed_key cfg key) b key t0 =
                Some (\<lparr>pos_index = tb_i2 b, pos_slot = e, pos_status = ok\<rparr>, b, t0) \<and>
              insert_tbl cfg key val t =
                Some (Inr True, add_to_bucket (the (tb_lock1 b)) (tb_i2 b) e
                        (partial (hashed_key cfg key)) key val t0)"
    using e e' uprase_fn_of_ok[OF assms(1) e(2)]
    by (auto simp add: insert_tbl_def upsert_def)
qed

section \<open>Evaluation on the example tables\<close>

lemmas hash_defs = hashed_key_def partial_key_def index_hash_def alt_index_def hashmask_def
  hashsize_def lock_ind_def kMaxNumLocks_def kMaxNumLocksPow_def

lemmas bucket_defs = get_bucket_def set_bucket_def setKV_def eraseKV_def occupied_def
  slot_key_def slot_partial_def slot_mapped_def add_counter_def set_migrated_def
  set_mapped_def add_to_bucket_def del_from_bucket_def

lemmas scan_defs = try_read_from_bucket_def try_read_from_bucket_loop.simps
  try_find_insert_bucket_def try_find_insert_bucket_loop.simps cuckoo_find_def

lemmas lock_defs = snapshot_and_lock_two_def lock_two_def lock_one_def lock_and_rehash_def
  TwoBuckets_normal_def read_and_rehash_def unlock_def

lemma ex_snapshot:
  "snapshot_and_lock_two ex_cfg (hashed_key ex_cfg 0) ex_empty =
     (\<lparr>tb_i1 = 0, tb_i2 = 1, tb_lock1 = Some 0, tb_lock2 = Some 1\<rparr>, ex_empty)"
  by (simp add: ex_cfg_def ex_empty_def hash_defs lock_defs Let_def)

text \<open>
  Counterexample to claim C5 as stated: in a bucket whose two slots are free, the first
  empty slot is slot 0, but the scan notes slot 1 and the pair is constructed there.
\<close>

theorem first_empty_slot_counterexample:
  "is_first_empty_slot ex_cfg (get_bucket ex_empty 0) 0 \<and>
   \<not> is_first_empty_slot ex_cfg (get_bucket ex_empty 0) 1 \<and>
   try_find_insert_bucket ex_cfg (get_bucket ex_empty 0) 0 0 = (True, 1) \<and>
   insert_tbl ex_cfg 0 10 ex_empty = Some (Inr True, ex_one)"
  by (simp add: ex_cfg_def ex_empty_def ex_one_def hash_defs lock_defs Let_def bucket_defs scan_defs
      is_first_empty_slot_def insert_tbl_def upsert_def uprase_fn_def cuckoo_insert_loop.simps
      cuckoo_insert_def)

theorem insert_at_last_empty_slot_witness:
  "snapshot_and_lock_two ex_cfg (hashed_key ex_cfg 0) ex_empty =
     (\<lparr>tb_i1 = 0, tb_i2 = 1, tb_lock1 = Some 0, tb_lock2 = Some 1\<rparr>, ex_empty) \<and>
   \<not> bucket_has_key ex_cfg (get_bucket ex_empty 0) (partial (hashed_key ex_cfg 0)) 0 \<and>
   \<not> bucket_has_key ex_cfg (get_bucket ex_empty 1) (partial (hashed_key ex_cfg 0)) 0 \<and>
   has_empty_slot ex_cfg (get_bucket ex_empty 0) \<and>
   (\<exists>e. is_last_empty_slot ex_cfg (get_bucket ex_empty 0) e \<and>
        insert_tbl ex_cfg 0 10 ex_empty =
          Some (Inr True, add_to_bucket 0 0 e (partial (hashed_key ex_cfg 0)) 0 10 ex_empty))"
proof -
  have nk: "\<not> bucket_has_key ex_cfg (get_bucket ex_empty 0) (partial (hashed_key ex_cfg 0)) 0"
      "\<not> bucket_has_key ex_cfg (get_bucket ex_empty 1) (partial (hashed_key ex_cfg 0)) 0"
    by (simp_all add: bucket_has_key_def slot_matches_def ex_cfg_def ex_empty_def bucket_defs
        Ex_less_Suc numeral_2_eq_2)
  have he: "has_empty_slot ex_cfg (get_bucket ex_empty 0)"
    by (simp add: has_empty_slot_def ex_cfg_def ex_empty_def bucket_defs) (rule exI[of _ 0], simp)
  show ?thesis
    using insert_at_last_empty_slot[OF ex_snapshot, of 10] nk he ex_snapshot
    by simp blast
qed

theorem bfs_queue_never_overflows_witness:
  "config_ok ex_cfg \<and>
   (\<exists>q0 x q' t'.
      slot_search_start ex_cfg 0 1 = Some q0 \<and>
      slot_search_loop ex_cfg 1 q0 ex_empty = Some (x, q', t') \<and>
      slot_search ex_cfg 1 0 1 ex_empty = Some (x, t') \<and>
      q_last q' \<le> MAX_CUCKOO_COUNT ex_cfg)"
proof -
  have ok: "config_ok ex_cfg"
    by (simp add: config_ok_def ex_cfg_def MAX_BFS_PATH_LEN_def const_pow_eq)
  show ?thesis
    using bfs_queue_never_overflows[OF ok, of 0 1 1 ex_empty] ok by blast
qed

section \<open>Projections of the primitive updates\<close>

lemma map_update_same: "(map f xs)[i := f (xs ! i)] = map f xs"
  by (simp only: map_update[symmetric] list_update_id)

lemma set_bucket_fields [simp]:
  "hashpower (set_bucket i b t) = hashpower t"
  "locks (set_bucket i b t) = locks t"
  "minimum_load_factor (set_bucket i b t) = minimum_load_factor t"
  "maximum_hashpower (set_bucket i b t) = maximum_hashpower t"
  "buckets (set_bucket i b t) = (buckets t)[unat i := b]"
  by (simp_all add: set_bucket_def)

lemma add_counter_fields [simp]:
  "hashpower (add_counter l d t) = hashpower t"
  "buckets (add_counter l d t) = buckets t"
  "minimum_load_factor (add_counter l d t) = minimum_load_factor t"
  "maximum_hashpower (add_counter l d t) = maximum_hashpower t"
  "length (locks (add_counter l d t)) = length (locks t)"
  by (simp_all add: add_counter_def)

lemma set_migrated_fields [simp]:
  "hashpower (set_migrated l m t) = hashpower t"
  "buckets (set_migrated l m t) = buckets t"
  "minimum_load_factor (set_migrated l m t) = minimum_load_factor t"
  "maximum_hashpower (set_migrated l m t) = maximum_hashpower t"
  "length (locks (set_migrated l m t)) = length (locks t)"
  "map elem_counter (locks (set_migrated l m t)) = map elem_counter (locks t)"
  by (simp_all add: set_migrated_def map_update map_update_same)

lemma get_bucket_set_bucket:
  "get_bucket (set_bucket i b t) j =
     (if unat i = unat j \<and> unat i < length (buckets t) then b else get_bucket t j)"
  by (cases "unat i = unat j") (auto simp add: get_bucket_def list_update_beyond not_less)

lemma is_migrated_set_migrated:
  "la < length (locks t) \<Longrightarrow>
     is_migrated (locks (set_migrated l m t) ! la) =
       (if unat l = la then m else is_migrated (locks t ! la))"
  by (simp add: set_migrated_def nth_list_update)

lemma elem_counter_set_migrated:
  "elem_counter (locks (set_migrated l m t) ! la) = elem_counter (locks t ! la)"
  by (cases "unat l = la"; cases "la < length (locks t)")
     (simp_all add: set_migrated_def list_update_beyond not_less)

lemma get_bucket_add_counter [simp]: "get_bucket (add_counter l d t) j = get_bucket t j"
  by (simp add: get_bucket_def)

lemma get_bucket_set_migrated [simp]: "get_bucket (set_migrated l m t) j = get_bucket t j"
  by (simp add: get_bucket_def)

lemma length_setKV [simp]: "length (setKV b s p k v) = length b"
  by (simp add: setKV_def)

lemma length_eraseKV [simp]: "length (eraseKV b s) = length b"
  by (simp add: eraseKV_def)

section \<open>The relation \<open>steady\<close>\<close>

lemma steady_refl [simp]: "steady t t"
  by (simp add: steady_def)

lemma steady_trans:
  assumes "steady t t1" and "steady t1 t2"
  shows "steady t t2"
proof -
  have len: "length (locks t1) = length (locks t)"
    using assms(1) by (metis steady_def length_map)
  show ?thesis
    using assms len by (simp add: steady_def)
qed

lemma steady_length_buckets: "steady t t' \<Longrightarrow> length (buckets t') = length (buckets t)"
  by (metis steady_def length_map)

lemma steady_length_locks: "steady t t' \<Longrightarrow> length (locks t') = length (locks t)"
  by (metis steady_def length_map)

lemma steady_table_size: "steady t t' \<Longrightarrow> table_size t' = table_size t"
proof -
  have "foldl (\<lambda>s lock. s + elem_counter lock) a ls = a + sum_list (map elem_counter ls)" for a ls
    by (induction ls arbitrary: a) simp_all
  from this[of 0]
  have "table_size u = sum_list (map elem_counter (locks u))" for u :: "('a, 'b) table"
    by (simp add: table_size_def)
  then show "steady t t' \<Longrightarrow> table_size t' = table_size t"
    by (simp add: steady_def)
qed

lemma steady_shape:
  assumes "steady t t'" and "table_shape cfg t"
  shows "table_shape cfg t'"
proof -
  have lb: "length (buckets t') = length (buckets t)" and ll: "length (locks t') = length (locks t)"
    using assms(1) by (simp_all add: steady_length_buckets steady_length_locks)
  have "list_all (\<lambda>b. length b = slot_per_bucket cfg) (buckets t')"
  proof -
    have "list_all (\<lambda>n. n = slot_per_bucket cfg) (map length (buckets t))"
      using assms(2) by (simp add: table_shape_def list_all_iff)
    then have "list_all (\<lambda>n. n = slot_per_bucket cfg) (map length (buckets t'))"
      using assms(1) by (simp add: steady_def)
    then show ?thesis by (simp add: list_all_iff)
  qed
  then show ?thesis
    using assms lb ll by (simp add: table_shape_def steady_def)
qed

lemma steady_set_bucket:
  assumes "unat i < length (buckets t) \<Longrightarrow> length b = length (get_bucket t i)"
  shows "steady t (set_bucket i b t)"
proof -
  have "map length ((buckets t)[unat i := b]) = map length (buckets t)"
  proof (cases "unat i < length (buckets t)")
    case True
    then show ?thesis
      using assms map_update_same[of length "buckets t" "unat i"]
      by (simp add: map_update get_bucket_def)
  next
    case False
    then show ?thesis by (simp add: list_update_beyond)
  qed
  then show ?thesis by (simp add: steady_def)
qed

lemma steady_set_migrated_True: "steady t (set_migrated l True t)"
  by (simp add: steady_def is_migrated_set_migrated)

lemma steady_move_pair: "steady t (move_pair from fs to ts t)"
proof -
  define t2 where "t2 = set_bucket to
                (setKV (get_bucket t to) ts (slot_partial (get_bucket t from) fs)
                   (slot_key (get_bucket t from) fs) (slot_mapped (get_bucket t from) fs)) t"
  have "steady t t2"
    unfolding t2_def by (rule steady_set_bucket) simp
  moreover have "steady t2 (set_bucket from (eraseKV (get_bucket t2 from) fs) t2)"
    by (rule steady_set_bucket) simp
  ultimately show ?thesis
    unfolding move_pair_def Let_def t2_def by (rule steady_trans)
qed

section \<open>Migration\<close>

lemma fold_move_bucket_step_preserves:
  assumes "Q (snd st)"
    and "\<And>t' s p k v. Q t' \<Longrightarrow> Q (set_bucket new_ref (setKV (get_bucket t' new_ref) s p k v) t')"
    and "\<And>t' s. Q t' \<Longrightarrow> Q (after_set s t')"
  shows "Q (snd (fold (move_bucket_step cfg old_hp old_ind old_ref new_ref after_set) xs st))"
  using assms(1)
proof (induction xs arbitrary: st)
  case Nil
  then show ?case by simp
next
  case (Cons x xs)
  have "Q (snd (move_bucket_step cfg old_hp old_ind old_ref new_ref after_set x st))"
    using Cons.prems assms(2,3) by (simp add: move_bucket_step_def Let_def)
  then show ?case
    using Cons.IH by simp
qed

lemma move_bucket_preserves:
  assumes "Q t"
    and "\<And>t' s p k v. Q t' \<Longrightarrow> Q (set_bucket new_ref (setKV (get_bucket t' new_ref) s p k v) t')"
    and "\<And>t' s. Q t' \<Longrightarrow> Q (after_set s t')"
  shows "Q (move_bucket cfg old_hp old_ind old_ref new_ref after_set t)"
  unfolding move_bucket_def
  by (rule fold_move_bucket_step_preserves) (simp_all add: assms)

lemma migrate_lock_loop_preserves:
  assumes "Q t"
    and "\<And>t' r s p k v. Q t' \<Longrightarrow> Q (set_bucket r (setKV (get_bucket t' r) s p k v) t')"
    and "\<And>t' r s. Q t' \<Longrightarrow> Q (set_bucket r (eraseKV (get_bucket t' r) s) t')"
  shows "Q (migrate_lock_loop cfg sz bucket_ind t)"
  using assms(1)
proof (induction cfg sz bucket_ind t rule: migrate_lock_loop.induct)
  case (1 cfg sz bucket_ind t)
  show ?case
  proof (cases "bucket_ind < drop_bit 1 sz")
    case False
    then show ?thesis
      using "1.prems" by (subst migrate_lock_loop.simps) simp
  next
    case True
    have "Q (move_bucket cfg (hashpower t - 1) bucket_ind bucket_ind
            (bucket_ind + hashsize (hashpower t - 1))
            (\<lambda>old_bucket_slot t'.
                set_bucket bucket_ind (eraseKV (get_bucket t' bucket_ind) old_bucket_slot) t')
            t)"
      by (rule move_bucket_preserves) (simp_all add: "1.prems" assms(2,3))
    then show ?thesis
      using True "1.IH" by (subst migrate_lock_loop.simps) simp
  qed
qed

lemma steady_setKV_step:
  "steady t0 t' \<Longrightarrow> steady t0 (set_bucket r (setKV (get_bucket t' r) s p k v) t')"
  by (erule steady_trans) (rule steady_set_bucket, simp)

lemma steady_eraseKV_step:
  "steady t0 t' \<Longrightarrow> steady t0 (set_bucket r (eraseKV (get_bucket t' r) s) t')"
  by (erule steady_trans) (rule steady_set_bucket, simp)

lemma steady_migrate_lock: "steady t (migrate_lock cfg l t)"
  unfolding migrate_lock_def
  by (rule migrate_lock_loop_preserves) (simp_all add: steady_setKV_step steady_eraseKV_step)

lemma steady_lock_and_rehash: "steady t (lock_and_rehash cfg l t)"
proof (cases "is_migrated (locks t ! unat l)")
  case True
  then show ?thesis by (simp add: lock_and_rehash_def)
next
  case False
  have "steady t (set_migrated l True (migrate_lock cfg l t))"
    using steady_migrate_lock steady_set_migrated_True by (rule steady_trans)
  then show ?thesis
    using False by (simp add: lock_and_rehash_def)
qed

lemma lock_and_rehash_migrated:
  assumes "unat l < length (locks t)"
  shows "is_migrated (locks (lock_and_rehash cfg l t) ! unat l)"
proof (cases "is_migrated (locks t ! unat l)")
  case True
  then show ?thesis by (simp add: lock_and_rehash_def)
next
  case False
  have "length (locks (migrate_lock cfg l t)) = length (locks t)"
    using steady_migrate_lock by (rule steady_length_locks)
  then show ?thesis
    using False assms by (simp add: lock_and_rehash_def is_migrated_set_migrated)
qed

lemma lock_and_rehash_id:
  "is_migrated (locks t ! unat l) \<Longrightarrow> lock_and_rehash cfg l t = t"
  by (simp add: lock_and_rehash_def)

lemma steady_migrated:
  "steady t t' \<Longrightarrow> l < length (locks t) \<Longrightarrow> is_migrated (locks t ! l)
     \<Longrightarrow> is_migrated (locks t' ! l)"
  by (simp add: steady_def)

section \<open>Steps\<close>

lemma table_step_steady: "table_step cfg t t' \<Longrightarrow> steady t t'"
  by (induction rule: table_step.induct) (simp_all add: steady_lock_and_rehash steady_move_pair)

lemma table_steps_steady: "(table_step cfg)\<^sup>*\<^sup>* t t' \<Longrightarrow> steady t t'"
proof (induction rule: rtranclp_induct)
  case base
  show ?case by simp
next
  case (step y z)
  then show ?case
    using table_step_steady steady_trans by blast
qed

lemma stripe_steps_table_steps: "stripe_steps cfg t t' \<Longrightarrow> (table_step cfg)\<^sup>*\<^sup>* t t'"
proof (induction rule: stripe_steps.induct)
  case (stripe_steps_refl t)
  show ?case by simp
next
  case (stripe_steps_take t t' l)
  then show ?case
    using table_step.take_stripe[of cfg t' l] by (meson rtranclp.rtrancl_into_rtrancl)
qed

lemma stripe_steps_steady: "stripe_steps cfg t t' \<Longrightarrow> steady t t'"
  using stripe_steps_table_steps table_steps_steady by blast

lemma stripe_steps_trans:
  assumes "stripe_steps cfg t1 t2"
  shows "stripe_steps cfg t0 t1 \<Longrightarrow> stripe_steps cfg t0 t2"
  using assms
proof (induction rule: stripe_steps.induct)
  case (stripe_steps_refl t)
  then show ?case .
next
  case (stripe_steps_take t t' l)
  then show ?case
    using stripe_steps.stripe_steps_take by blast
qed

lemma stripe_steps_one: "stripe_steps cfg t (lock_and_rehash cfg l t)"
  using stripe_steps.stripe_steps_take[OF stripe_steps_refl] .

section \<open>Taking one, two or three stripes\<close>

lemma lock_one_steps: "stripe_steps cfg t (lock_one cfg hp i t)"
  by (simp add: lock_one_def stripe_steps_one)

lemma lock_one_migrated:
  "unat (lock_ind i) < length (locks t)
     \<Longrightarrow> is_migrated (locks (lock_one cfg hp i t) ! unat (lock_ind i))"
  by (simp add: lock_one_def lock_and_rehash_migrated)

lemma lock_two_steps: "stripe_steps cfg t (snd (lock_two cfg hp i1 i2 t))"
  by (auto simp add: lock_two_def Let_def stripe_steps_one
      intro!: stripe_steps.stripe_steps_take stripe_steps.stripe_steps_refl)

lemma lock_two_buckets:
  "tb_i1 (fst (lock_two cfg hp i1 i2 t)) = i1"
  "tb_i2 (fst (lock_two cfg hp i1 i2 t)) = i2"
  "tb_lock1 (fst (lock_two cfg hp i1 i2 t)) = Some (lock_ind i1) \<or>
   tb_lock1 (fst (lock_two cfg hp i1 i2 t)) = Some (lock_ind i2)"
  by (simp_all add: lock_two_def Let_def TwoBuckets_normal_def)

lemma lock_two_migrated:
  assumes "unat (lock_ind i1) < length (locks t)" and "unat (lock_ind i2) < length (locks t)"
  shows "is_migrated (locks (snd (lock_two cfg hp i1 i2 t)) ! unat (lock_ind i1)) \<and>
         is_migrated (locks (snd (lock_two cfg hp i1 i2 t)) ! unat (lock_ind i2))"
proof -
  have two: "is_migrated (locks (lock_and_rehash cfg b (lock_and_rehash cfg a t)) ! unat a) \<and>
             is_migrated (locks (lock_and_rehash cfg b (lock_and_rehash cfg a t)) ! unat b)"
    if "unat a < length (locks t)" "unat b < length (locks t)" for a b
  proof -
    have len: "length (locks (lock_and_rehash cfg a t)) = length (locks t)"
      using steady_lock_and_rehash by (rule steady_length_locks)
    have "is_migrated (locks (lock_and_rehash cfg a t) ! unat a)"
      using that(1) by (rule lock_and_rehash_migrated)
    then have "is_migrated (locks (lock_and_rehash cfg b (lock_and_rehash cfg a t)) ! unat a)"
      using steady_migrated[OF steady_lock_and_rehash, of "unat a" "lock_and_rehash cfg a t" cfg b]
        that(1) len by simp
    moreover have "is_migrated (locks (lock_and_rehash cfg b (lock_and_rehash cfg a t)) ! unat b)"
      using that(2) len by (simp add: lock_and_rehash_migrated)
    ultimately show ?thesis by simp
  qed
  show ?thesis
    using two[OF assms] two[OF assms(2,1)] assms
    by (auto simp add: lock_two_def Let_def lock_and_rehash_migrated)
qed

lemma lock_three_steps: "stripe_steps cfg t (snd (lock_three cfg hp i0 i1 i2 t))"
  by (auto simp add: lock_three_def Let_def stripe_steps_one
      intro!: stripe_steps.stripe_steps_take stripe_steps.stripe_steps_refl)

lemma lock_three_buckets:
  "tb_i1 (fst (fst (lock_three cfg hp i0 i1 i2 t))) = i0"
  "tb_i2 (fst (fst (lock_three cfg hp i0 i1 i2 t))) = i1"
  by (simp_all add: lock_three_def Let_def TwoBuckets_normal_def)

lemma lock_three_lock1:
  "tb_lock1 (fst (fst (lock_three cfg hp i0 i1 i2 t))) = Some (lock_ind i0)"
  by (auto simp add: lock_three_def Let_def TwoBuckets_normal_def sort_step_def)

section \<open>Facts about the breadth-first search\<close>

lemma enqueue_pending:
  assumes "enqueue cfg q y = Some q'" and "queue_inv cfg q"
    and "q_last q \<le> MAX_CUCKOO_COUNT cfg"
  shows "pending q' = pending q @ [y] \<and> queue_inv cfg q' \<and> q_first q' = q_first q \<and>
         q_last q' \<le> MAX_CUCKOO_COUNT cfg"
proof -
  have nf: "q_last q \<noteq> MAX_CUCKOO_COUNT cfg"
    using assms(1) by (auto simp add: enqueue_def b_queue_full_def split: if_splits)
  have q': "q' = q\<lparr>q_slots := (q_slots q)[q_last q := y], q_last := q_last q + 1\<rparr>"
    using assms(1) by (auto simp add: enqueue_def split: if_splits)
  have len: "q_last q < length (q_slots q)" and fl: "q_first q \<le> q_last q"
    using assms(2,3) nf by (simp_all add: queue_inv_def)
  have "pending q' = pending q @ [y]"
    using len fl by (simp add: pending_def q' nth_list_update)
  moreover have "queue_inv cfg q'"
    using assms(2) by (simp add: queue_inv_def q')
  ultimately show ?thesis
    using assms(3) nf by (simp add: q')
qed

lemma slot_search_slots_facts:
  assumes "slot_search_slots cfg hp b x starting_slot i q = Some (r, q')"
    and "queue_inv cfg q" and "q_last q \<le> MAX_CUCKOO_COUNT cfg"
    and "depths_ok (pending q)" and "0 \<le> bs_depth x"
  shows "queue_inv cfg q' \<and> q_last q' \<le> MAX_CUCKOO_COUNT cfg \<and> depths_ok (pending q') \<and>
         q_first q' = q_first q \<and> (\<forall>found. r = Some found \<longrightarrow> bs_depth found = bs_depth x)"
  using assms
proof (induction cfg hp b x starting_slot i q rule: slot_search_slots.induct)
  case (1 cfg hp b x starting_slot i q)
  show ?case
  proof (cases "i < slot_per_bucket cfg")
    case False
    then show ?thesis
      using "1.prems" by (subst (asm) slot_search_slots.simps) auto
  next
    case inrange: True
    define sl where "sl = (starting_slot + i) mod slot_per_bucket cfg"
    show ?thesis
    proof (cases "occupied b sl")
      case False
      then show ?thesis
        using "1.prems" inrange
        by (subst (asm) slot_search_slots.simps) (auto simp add: sl_def Let_def)
    next
      case occ: True
      show ?thesis
      proof (cases "bs_depth x < int MAX_BFS_PATH_LEN - 1")
        case False
        have "slot_search_slots cfg hp b x starting_slot (i + 1) q = Some (r, q')"
          using "1.prems"(1) inrange occ False
          by (subst (asm) slot_search_slots.simps) (simp add: sl_def Let_def)
        then show ?thesis
          using "1.IH"(2)[OF inrange sl_def _ refl False] occ "1.prems" by simp
      next
        case deep: True
        define y where "y = \<lparr>bs_bucket = alt_index hp (slot_partial b sl) (bs_bucket x),
                     bs_pathcode = bs_pathcode x * of_nat (slot_per_bucket cfg) + of_nat sl,
                     bs_depth = bs_depth x + 1\<rparr>"
        obtain q1 where q1: "enqueue cfg q y = Some q1"
            "slot_search_slots cfg hp b x starting_slot (i + 1) q1 = Some (r, q')"
          using "1.prems"(1) inrange occ deep
          by (subst (asm) slot_search_slots.simps)
             (auto simp add: sl_def Let_def y_def split: option.splits)
        from enqueue_pending[OF q1(1) "1.prems"(2,3)]
        have e: "pending q1 = pending q @ [y]" "queue_inv cfg q1" "q_first q1 = q_first q"
            "q_last q1 \<le> MAX_CUCKOO_COUNT cfg"
          by simp_all
        have d: "depths_ok (pending q1)"
          using e(1) "1.prems"(4,5) deep by (simp add: depths_ok_def y_def)
        have occ': "\<not> \<not> occupied b sl" using occ by simp
        have enq: "enqueue cfg q
                    \<lparr>bs_bucket = alt_index hp (slot_partial b sl) (bs_bucket x),
                     bs_pathcode = bs_pathcode x * of_nat (slot_per_bucket cfg) + of_nat sl,
                     bs_depth = bs_depth x + 1\<rparr> = Some q1"
          using q1(1) by (simp only: y_def)
        have ih: "queue_inv cfg q' \<and> q_last q' \<le> MAX_CUCKOO_COUNT cfg \<and>
            depths_ok (pending q') \<and> q_first q' = q_first q1 \<and>
            (\<forall>found. r = Some found \<longrightarrow> bs_depth found = bs_depth x)"
          by (rule "1.IH"(1)[OF inrange sl_def occ' refl deep enq q1(2) e(2) e(4) d "1.prems"(5)])
        show ?thesis
          using ih e(3) by simp
      qed
    qed
  qed
qed

lemma slot_search_loop_facts_aux:
  assumes "slot_search_loop cfg hp q t = Some r"
  shows "queue_inv cfg q \<longrightarrow> q_last q \<le> MAX_CUCKOO_COUNT cfg \<longrightarrow> depths_ok (pending q) \<longrightarrow>
         stripe_steps cfg t (snd (snd r)) \<and> - 1 \<le> bs_depth (fst r) \<and>
         bs_depth (fst r) < int MAX_BFS_PATH_LEN"
proof (rule slot_search_loop.raw_induct[where P = "\<lambda>cfg hp q t r.
         queue_inv cfg q \<longrightarrow> q_last q \<le> MAX_CUCKOO_COUNT cfg \<longrightarrow> depths_ok (pending q) \<longrightarrow>
         stripe_steps cfg t (snd (snd r)) \<and> - 1 \<le> bs_depth (fst r) \<and>
         bs_depth (fst r) < int MAX_BFS_PATH_LEN", OF _ assms])
  fix f cfg hp q and t :: "('a, 'b) table" and r
  assume IH: "\<And>cfg hp q t y. f cfg hp q t = Some y \<Longrightarrow>
         queue_inv cfg q \<longrightarrow> q_last q \<le> MAX_CUCKOO_COUNT cfg \<longrightarrow> depths_ok (pending q) \<longrightarrow>
         stripe_steps cfg t (snd (snd y)) \<and> - 1 \<le> bs_depth (fst y) \<and>
         bs_depth (fst y) < int MAX_BFS_PATH_LEN"
    and body: "(if b_queue_empty q
      then Some (\<lparr>bs_bucket = 0, bs_pathcode = 0, bs_depth = - 1\<rparr>, q, t)
      else case dequeue q of None \<Rightarrow> None
           | Some xq \<Rightarrow>
               let x = fst xq; t1 = lock_one cfg hp (bs_bucket x) t;
                   b = get_bucket t1 (bs_bucket x);
                   starting_slot = unat (bs_pathcode x) mod slot_per_bucket cfg
               in case slot_search_slots cfg hp b x starting_slot 0 (snd xq) of
                  None \<Rightarrow> None
                  | Some (None, q') \<Rightarrow> f cfg hp q' t1
                  | Some (Some found, q') \<Rightarrow> Some (found, q', t1)) = Some r"
  show "queue_inv cfg q \<longrightarrow> q_last q \<le> MAX_CUCKOO_COUNT cfg \<longrightarrow> depths_ok (pending q) \<longrightarrow>
         stripe_steps cfg t (snd (snd r)) \<and> - 1 \<le> bs_depth (fst r) \<and>
         bs_depth (fst r) < int MAX_BFS_PATH_LEN"
  proof (intro impI)
    assume prems: "queue_inv cfg q" "q_last q \<le> MAX_CUCKOO_COUNT cfg" "depths_ok (pending q)"
    show "stripe_steps cfg t (snd (snd r)) \<and> - 1 \<le> bs_depth (fst r) \<and>
         bs_depth (fst r) < int MAX_BFS_PATH_LEN"
    proof (cases "b_queue_empty q")
      case True
      then have "r = (\<lparr>bs_bucket = 0, bs_pathcode = 0, bs_depth = - 1\<rparr>, q, t)"
        using body by simp
      then show ?thesis
        by (simp add: MAX_BFS_PATH_LEN_def stripe_steps_refl)
    next
      case False
      then have fl: "q_first q < q_last q"
        using prems(1) by (simp add: b_queue_empty_def queue_inv_def)
      define x where "x = q_slots q ! q_first q"
      define q1 where "q1 = q\<lparr>q_first := q_first q + 1\<rparr>"
      have deq: "dequeue q = Some (x, q1)"
        using False fl by (simp add: dequeue_def x_def q1_def)
      have pend: "pending q = x # pending q1"
        using fl by (simp add: pending_def q1_def x_def upt_conv_Cons)
      have inv1: "queue_inv cfg q1" "q_last q1 \<le> MAX_CUCKOO_COUNT cfg"
        using prems(1,2) fl by (simp_all add: queue_inv_def q1_def)
      have d1: "depths_ok (pending q1)"
        and dx: "0 \<le> bs_depth x" "bs_depth x < int MAX_BFS_PATH_LEN"
        using prems(3) pend by (simp_all add: depths_ok_def)
      define t1 where "t1 = lock_one cfg hp (bs_bucket x) t"
      define b where "b = get_bucket t1 (bs_bucket x)"
      define st where "st = unat (bs_pathcode x) mod slot_per_bucket cfg"
      have st1: "stripe_steps cfg t t1"
        unfolding t1_def by (rule lock_one_steps)
      from body False deq
      have body': "(case slot_search_slots cfg hp b x st 0 q1 of
                  None \<Rightarrow> None
                | Some (None, q') \<Rightarrow> f cfg hp q' t1
                | Some (Some found, q') \<Rightarrow> Some (found, q', t1)) = Some r"
        unfolding t1_def b_def st_def by (simp add: Let_def)
      then obtain res q2 where res: "slot_search_slots cfg hp b x st 0 q1 = Some (res, q2)"
        by (cases "slot_search_slots cfg hp b x st 0 q1") auto
      from slot_search_slots_facts[OF res inv1 d1 dx(1)]
      have f2: "queue_inv cfg q2" "q_last q2 \<le> MAX_CUCKOO_COUNT cfg" "depths_ok (pending q2)"
          "\<forall>found. res = Some found \<longrightarrow> bs_depth found = bs_depth x"
        by simp_all
      show ?thesis
      proof (cases res)
        case None
        then have "f cfg hp q2 t1 = Some r"
          using body' res by simp
        from IH[OF this] f2(1,2,3)
        have "stripe_steps cfg t1 (snd (snd r)) \<and> - 1 \<le> bs_depth (fst r) \<and>
              bs_depth (fst r) < int MAX_BFS_PATH_LEN"
          by simp
        then show ?thesis
          using st1 stripe_steps_trans by blast
      next
        case (Some found)
        then have "r = (found, q2, t1)"
          using body' res by simp
        then show ?thesis
          using st1 f2(4) Some dx by simp
      qed
    qed
  qed
qed

lemma slot_search_loop_facts:
  assumes "slot_search_loop cfg hp q t = Some r"
    and "queue_inv cfg q" and "q_last q \<le> MAX_CUCKOO_COUNT cfg"
    and "depths_ok (pending q)"
  shows "stripe_steps cfg t (snd (snd r)) \<and> - 1 \<le> bs_depth (fst r) \<and>
         bs_depth (fst r) < int MAX_BFS_PATH_LEN"
  using slot_search_loop_facts_aux[OF assms(1)] assms(2-) by simp

lemma slot_search_start_facts:
  assumes "slot_search_start cfg i1 i2 = Some q"
  shows "queue_inv cfg q \<and> q_last q \<le> MAX_CUCKOO_COUNT cfg \<and> depths_ok (pending q)"
proof -
  define a where "a = \<lparr>bs_bucket = i1, bs_pathcode = 0, bs_depth = 0\<rparr>"
  define b where "b = \<lparr>bs_bucket = i2, bs_pathcode = 1, bs_depth = 0\<rparr>"
  have i0: "queue_inv cfg (b_queue_new cfg)" "q_last (b_queue_new cfg) \<le> MAX_CUCKOO_COUNT cfg"
      "pending (b_queue_new cfg) = []"
    by (simp_all add: queue_inv_def b_queue_new_def pending_def)
  obtain q1 where q1: "enqueue cfg (b_queue_new cfg) a = Some q1" "enqueue cfg q1 b = Some q"
    using assms by (auto simp add: slot_search_start_def a_def b_def split: option.splits)
  from enqueue_pending[OF q1(1) i0(1,2)]
  have e1: "pending q1 = [a]" "queue_inv cfg q1" "q_last q1 \<le> MAX_CUCKOO_COUNT cfg"
    using i0(3) by simp_all
  from enqueue_pending[OF q1(2) e1(2,3)]
  have e2: "pending q = [a, b]" "queue_inv cfg q" "q_last q \<le> MAX_CUCKOO_COUNT cfg"
    using e1(1) by simp_all
  show ?thesis
    using e2 by (simp add: depths_ok_def a_def b_def MAX_BFS_PATH_LEN_def)
qed

lemma slot_search_facts:
  assumes "slot_search cfg hp i1 i2 t = Some (x, t')"
  shows "stripe_steps cfg t t' \<and> - 1 \<le> bs_depth x \<and> bs_depth x < int MAX_BFS_PATH_LEN"
proof -
  obtain q where q: "slot_search_start cfg i1 i2 = Some q"
    using assms by (auto simp add: slot_search_def split: option.splits)
  obtain r where r: "slot_search_loop cfg hp q t = Some r" "x = fst r" "t' = snd (snd r)"
    using assms q by (auto simp add: slot_search_def split: option.splits)
  from slot_search_start_facts[OF q] slot_search_loop_facts[OF r(1)]
  show ?thesis
    using r(2,3) by simp
qed

section \<open>Ranges of the indices\<close>

lemma unat_and_hashmask_lt: "unat (x AND hashmask hp) < 2 ^ hp"
proof -
  have "x AND hashmask hp = take_bit hp x"
    by (simp add: hashmask_mask take_bit_eq_mask)
  then show ?thesis
    by (simp add: unsigned_take_bit_eq)
qed

lemma index_hash_lt: "unat (index_hash hp h) < 2 ^ hp"
  by (simp add: index_hash_def unat_and_hashmask_lt)

lemma alt_index_lt: "unat (alt_index hp p i) < 2 ^ hp"
  by (simp add: alt_index_def Let_def unat_and_hashmask_lt)

lemma unat_lock_ind: "unat (lock_ind i) = unat i mod 2 ^ kMaxNumLocksPow"
proof -
  have "kMaxNumLocks - 1 = (mask kMaxNumLocksPow :: size_type)"
    by (simp add: kMaxNumLocks_def mask_eq_exp_minus_1)
  then have "lock_ind i = take_bit kMaxNumLocksPow i"
    by (simp add: lock_ind_def take_bit_eq_mask)
  then have "unat (lock_ind i) = take_bit kMaxNumLocksPow (unat i)"
    by (simp only: unsigned_take_bit_eq)
  then show ?thesis
    by (simp only: take_bit_eq_mod)
qed

lemma lock_ind_lt:
  assumes "table_shape cfg t" and "unat i < 2 ^ hashpower t"
  shows "unat (lock_ind i) < length (locks t)"
proof -
  have a: "unat (lock_ind i) < 2 ^ kMaxNumLocksPow"
    by (simp add: unat_lock_ind)
  have b: "unat (lock_ind i) \<le> unat i"
    by (simp add: unat_lock_ind)
  have len: "length (locks t) = 2 ^ min (hashpower t) kMaxNumLocksPow"
    using assms(1) by (simp add: table_shape_def)
  show ?thesis
  proof (cases "hashpower t \<le> kMaxNumLocksPow")
    case True
    then show ?thesis using b assms(2) len by (simp add: min_def)
  next
    case False
    then show ?thesis using a len by (simp add: min_def)
  qed
qed

section \<open>Building a cuckoo path\<close>

lemma decode_slots_above:
  "d < j \<Longrightarrow> fst (decode_slots cfg d (path, pc)) ! j = path ! j"
  by (induction d arbitrary: path pc) simp_all

lemma decode_slots_length:
  "length (fst (decode_slots cfg d (path, pc))) = length path"
  by (induction d arbitrary: path pc) simp_all

lemma decode_slots_slots:
  assumes "0 < slot_per_bucket cfg" and "d < length path" and "j \<le> d"
  shows "cr_slot (fst (decode_slots cfg d (path, pc)) ! j) < slot_per_bucket cfg"
  using assms(2,3)
proof (induction d arbitrary: path pc)
  case 0
  then show ?case using assms(1) by simp
next
  case (Suc d)
  show ?case
  proof (cases "j = Suc d")
    case True
    then show ?thesis
      using Suc.prems assms(1) by (simp add: decode_slots_above)
  next
    case False
    then have "j \<le> d" using Suc.prems by simp
    then show ?thesis
      using Suc.IH[of "path[Suc d := (path ! Suc d)\<lparr>cr_slot := unat pc mod slot_per_bucket cfg\<rparr>]"]
        Suc.prems by simp
  qed
qed

lemma cuckoopath_search_loop_facts:
  assumes "cuckoopath_search_loop cfg hp depth i path t = (d, path', t')"
    and "1 \<le> i" and "i \<le> depth + 1" and "depth < length path"
    and "\<forall>j < i. rec_ok cfg hp (path ! j)"
    and "\<forall>j \<le> depth. cr_slot (path ! j) < slot_per_bucket cfg"
  shows "stripe_steps cfg t t' \<and> length path' = length path \<and> 0 \<le> d \<and> nat d \<le> depth \<and>
         (\<forall>j \<le> nat d. rec_ok cfg hp (path' ! j)) \<and> path' ! 0 = path ! 0"
  using assms
proof (induction cfg hp depth i path t rule: cuckoopath_search_loop.induct)
  case (1 cfg hp depth i path t)
  show ?case
  proof (cases "i \<le> depth")
    case False
    then have r: "d = int depth" "path' = path" "t' = t"
      using "1.prems"(1) by (subst (asm) cuckoopath_search_loop.simps, simp)+
    have "i = depth + 1" using False "1.prems"(3) by simp
    then show ?thesis
      using r "1.prems"(5) by (simp add: stripe_steps_refl)
  next
    case True
    define prev where "prev = path ! (i - 1)"
    define cb where "cb = alt_index hp (partial (cr_hv prev)) (cr_bucket prev)"
    define path1 where "path1 = path[i := (path ! i)\<lparr>cr_bucket := cb\<rparr>]"
    define t1 where "t1 = lock_one cfg hp cb t"
    define b where "b = get_bucket t1 cb"
    define path2 where "path2 = path1[i := (path1 ! i)\<lparr>cr_hv :=
                      hashed_key cfg (slot_key b (cr_slot (path1 ! i)))\<rparr>]"
    have ilen: "i < length path" using True "1.prems"(4) by simp
    have st1: "stripe_steps cfg t t1" unfolding t1_def by (rule lock_one_steps)
    have ok1: "\<forall>j \<le> i. rec_ok cfg hp (path1 ! j)"
    proof (intro allI impI)
      fix j assume "j \<le> i"
      show "rec_ok cfg hp (path1 ! j)"
      proof (cases "j = i")
        case True
        then show ?thesis
          using ilen "1.prems"(6) \<open>i \<le> depth\<close>
          by (simp add: path1_def rec_ok_def cb_def alt_index_lt)
      next
        case False
        then have "j < i" using \<open>j \<le> i\<close> by simp
        then show ?thesis
          using "1.prems"(5) False by (simp add: path1_def)
      qed
    qed
    have p10: "path1 ! 0 = path ! 0" using "1.prems"(2) by (simp add: path1_def)
    show ?thesis
    proof (cases "occupied b (cr_slot (path1 ! i))")
      case False
      then have r: "d = int i" "path' = path1" "t' = t1"
        using "1.prems"(1) True
        by (subst (asm) cuckoopath_search_loop.simps,
            simp add: Let_def prev_def cb_def path1_def t1_def b_def)+
      show ?thesis
        using r st1 ok1 p10 True by (simp add: path1_def)
    next
      case occ: True
      have rec: "cuckoopath_search_loop cfg hp depth (i + 1) path2 t1 = (d, path', t')"
        using "1.prems"(1) True occ
        by (subst (asm) cuckoopath_search_loop.simps)
           (simp add: Let_def prev_def cb_def path1_def t1_def b_def path2_def)
      have ok2: "\<forall>j < i + 1. rec_ok cfg hp (path2 ! j)"
      proof (intro allI impI)
        fix j assume "j < i + 1"
        then have "j \<le> i" by simp
        then have "rec_ok cfg hp (path1 ! j)" using ok1 by simp
        then show "rec_ok cfg hp (path2 ! j)"
          using ilen by (cases "j = i") (simp_all add: path2_def path1_def rec_ok_def)
      qed
      have sl2: "\<forall>j \<le> depth. cr_slot (path2 ! j) < slot_per_bucket cfg"
      proof (intro allI impI)
        fix j assume "j \<le> depth"
        then have "cr_slot (path ! j) < slot_per_bucket cfg" using "1.prems"(6) by simp
        then show "cr_slot (path2 ! j) < slot_per_bucket cfg"
          using ilen by (cases "j = i") (simp_all add: path2_def path1_def)
      qed
      have len2: "depth < length path2" using "1.prems"(4) by (simp add: path2_def path1_def)
      have occ': "\<not> \<not> occupied b (cr_slot (path1 ! i))" using occ by simp
      have ih: "stripe_steps cfg t1 t' \<and> length path' = length path2 \<and> 0 \<le> d \<and>
          nat d \<le> depth \<and> (\<forall>j \<le> nat d. rec_ok cfg hp (path' ! j)) \<and> path' ! 0 = path2 ! 0"
        using "1.IH"[OF True prev_def cb_def path1_def t1_def b_def occ'] rec
          True len2 ok2 sl2
        by (simp add: path2_def)
      have "path2 ! 0 = path ! 0" using "1.prems"(2) p10 by (simp add: path2_def)
      then show ?thesis
        using ih st1 stripe_steps_trans[of cfg t1 t' t] by (simp add: path2_def path1_def)
    qed
  qed
qed

lemma cuckoopath_search_facts:
  assumes "cuckoopath_search cfg hp path i1 i2 t = Some (d, path', t')"
    and "0 < slot_per_bucket cfg" and "length path = MAX_BFS_PATH_LEN"
    and "unat i1 < 2 ^ hp" and "unat i2 < 2 ^ hp"
  shows "stripe_steps cfg t t' \<and> length path' = length path \<and>
         (d = - 1 \<or>
          (0 \<le> d \<and> nat d < length path' \<and> (\<forall>j \<le> nat d. rec_ok cfg hp (path' ! j)) \<and>
           (cr_bucket (path' ! 0) = i1 \<or> cr_bucket (path' ! 0) = i2)))"
proof -
  obtain x t0 where ss: "slot_search cfg hp i1 i2 t = Some (x, t0)"
    using assms(1) by (auto simp add: cuckoopath_search_def split: option.splits)
  from slot_search_facts[OF ss]
  have s0: "stripe_steps cfg t t0" and dx: "- 1 \<le> bs_depth x" "bs_depth x < int MAX_BFS_PATH_LEN"
    by simp_all
  show ?thesis
  proof (cases "bs_depth x = - 1")
    case True
    then have "d = - 1" "path' = path" "t' = t0"
      using assms(1) ss by (simp_all add: cuckoopath_search_def)
    then show ?thesis using s0 by simp
  next
    case False
    define depth where "depth = nat (bs_depth x)"
    have dlen: "depth < length path"
      using dx False assms(3) by (simp add: depth_def)
    define path0 where "path0 = fst (decode_slots cfg depth (path, bs_pathcode x))"
    define fb where "fb = (if snd (decode_slots cfg depth (path, bs_pathcode x)) = 0 then i1 else i2)"
    define path1 where "path1 = path0[0 := (path0 ! 0)\<lparr>cr_bucket := fb\<rparr>]"
    define t1 where "t1 = lock_one cfg hp fb t0"
    define b where "b = get_bucket t1 fb"
    define path2 where "path2 = path1[0 := (path1 ! 0)\<lparr>cr_hv :=
                          hashed_key cfg (slot_key b (cr_slot (path1 ! 0)))\<rparr>]"
    have len0: "length path0 = length path"
      by (simp add: path0_def decode_slots_length)
    have sl0: "\<forall>j \<le> depth. cr_slot (path0 ! j) < slot_per_bucket cfg"
      using decode_slots_slots[OF assms(2) dlen] by (simp add: path0_def)
    have fbr: "unat fb < 2 ^ hp" "fb = i1 \<or> fb = i2"
      using assms(4,5) by (simp_all add: fb_def)
    have s1: "stripe_steps cfg t t1"
      using s0 lock_one_steps[of cfg t0 hp fb] stripe_steps_trans unfolding t1_def by blast
    have pos: "0 < length path0" using dlen len0 by (cases path0) auto
    have ok1: "rec_ok cfg hp (path1 ! 0)" "cr_bucket (path1 ! 0) = fb"
      using sl0 fbr(1) pos by (simp_all add: path1_def rec_ok_def)
    show ?thesis
    proof (cases "occupied b (cr_slot (path1 ! 0))")
      case nocc: False
      have "d = 0" "path' = path1" "t' = t1"
        using assms(1) ss False nocc
        by (simp_all add: cuckoopath_search_def Let_def depth_def path0_def fb_def path1_def
            t1_def b_def)
      then show ?thesis
        using s1 ok1 fbr(2) len0 pos by (auto simp add: path1_def)
    next
      case occ: True
      have loop: "cuckoopath_search_loop cfg hp depth 1 path2 t1 = (d, path', t')"
        using assms(1) ss False occ
        by (simp add: cuckoopath_search_def Let_def depth_def path0_def fb_def path1_def
            t1_def b_def path2_def)
      have ok2: "\<forall>j < 1. rec_ok cfg hp (path2 ! j)"
        using ok1 pos by (simp add: path2_def path1_def rec_ok_def)
      have sl2: "\<forall>j \<le> depth. cr_slot (path2 ! j) < slot_per_bucket cfg"
      proof (intro allI impI)
        fix j assume "j \<le> depth"
        then have "cr_slot (path0 ! j) < slot_per_bucket cfg" using sl0 by simp
        then show "cr_slot (path2 ! j) < slot_per_bucket cfg"
          using pos by (cases "j = 0") (simp_all add: path2_def path1_def)
      qed
      have len2: "depth < length path2" "length path2 = length path"
        using dlen len0 by (simp_all add: path2_def path1_def)
      from cuckoopath_search_loop_facts[OF loop _ _ len2(1) ok2 sl2]
      have f: "stripe_steps cfg t1 t'" "length path' = length path2" "0 \<le> d" "nat d \<le> depth"
          "\<forall>j \<le> nat d. rec_ok cfg hp (path' ! j)" "path' ! 0 = path2 ! 0"
        by simp_all
      have "cr_bucket (path2 ! 0) = fb"
        using ok1(2) pos by (simp add: path2_def path1_def)
      then show ?thesis
        using f s1 stripe_steps_trans[of cfg t1 t' t] len2 fbr(2) by auto
    qed
  qed
qed

section \<open>Three stripes\<close>

lemma sorted_three_members:
  "a \<in> set (fst (sort_step 1 0 (sort_step 2 0 (sort_step 2 1 ([a, b, c], [0, 1, 2])))))"
  "b \<in> set (fst (sort_step 1 0 (sort_step 2 0 (sort_step 2 1 ([a, b, c], [0, 1, 2])))))"
  "c \<in> set (fst (sort_step 1 0 (sort_step 2 0 (sort_step 2 1 ([a, b, c], [0, 1, 2])))))"
  "length (fst (sort_step 1 0 (sort_step 2 0 (sort_step 2 1 ([a, b, c], [0, 1, 2]))))) = 3"
  by (auto simp add: sort_step_def Let_def)

lemma take_three_migrated:
  fixes l :: "size_type list" and cfg :: "'k config" and t :: "('k, 'v) table"
  assumes "length l = 3" and "x \<in> set l" and "unat x < length (locks t)"
  defines "t0 \<equiv> lock_and_rehash cfg (l ! 0) t"
  defines "t1 \<equiv> (if l ! 1 \<noteq> l ! 0 then lock_and_rehash cfg (l ! 1) t0 else t0)"
  defines "t2 \<equiv> (if l ! 2 \<noteq> l ! 1 then lock_and_rehash cfg (l ! 2) t1 else t1)"
  shows "is_migrated (locks t2 ! unat x)"
proof -
  have s01: "steady t0 t1" and s12: "steady t1 t2" and s0: "steady t t0"
    by (simp_all add: t0_def t1_def t2_def steady_lock_and_rehash)
  have len: "length (locks t0) = length (locks t)" "length (locks t1) = length (locks t)"
    using s0 s01 by (simp_all add: steady_length_locks)
  obtain a b c where l: "l = [a, b, c]"
    using assms(1) by (metis (no_types, lifting) length_0_conv length_Suc_conv numeral_3_eq_3)
  have m0: "x = a \<Longrightarrow> is_migrated (locks t0 ! unat x)"
    using assms(3) by (simp add: t0_def l lock_and_rehash_migrated)
  have m1: "is_migrated (locks t1 ! unat x)" if "x = a \<or> x = b"
  proof (cases "x = a")
    case True
    then show ?thesis
      using m0 steady_migrated[OF s01] assms(3) len by simp
  next
    case False
    then have "x = b" "b \<noteq> a" using that by simp_all
    then show ?thesis
      using assms(3) len by (simp add: t1_def l lock_and_rehash_migrated)
  qed
  show ?thesis
  proof (cases "x = a \<or> x = b")
    case True
    then show ?thesis
      using m1 steady_migrated[OF s12] assms(3) len by simp
  next
    case False
    then have "x = c" "c \<noteq> b" using assms(2) l by auto
    then show ?thesis
      using assms(3) len by (simp add: t2_def l lock_and_rehash_migrated)
  qed
qed

lemma lock_three_migrated:
  assumes "x = lock_ind i0 \<or> x = lock_ind i1 \<or> x = lock_ind i2"
    and "unat x < length (locks t)"
  shows "is_migrated (locks (snd (lock_three cfg hp i0 i1 i2 t)) ! unat x)"
proof -
  define l where "l = fst (sort_step 1 0 (sort_step 2 0 (sort_step 2 1
                ([lock_ind i0, lock_ind i1, lock_ind i2], [0, 1, 2]))))"
  have "x \<in> set l" "length l = 3"
    using assms(1)
      sorted_three_members[where a = "lock_ind i0" and b = "lock_ind i1" and c = "lock_ind i2"]
    unfolding l_def by auto
  from take_three_migrated[OF this(2,1) assms(2), of cfg]
  show ?thesis
    unfolding lock_three_def Let_def snd_conv l_def[symmetric] .
qed

section \<open>The keys of a table\<close>

lemma slot_key_in_slot_keys:
  assumes "i < length b" and "occupied b i"
  shows "slot_key b i \<in> set (slot_keys b)"
proof -
  have "b ! i \<in> set b" using assms(1) by simp
  moreover have "b ! i \<noteq> None" using assms(2) by (simp add: occupied_def)
  ultimately have "b ! i \<in> set (filter (\<lambda>s. s \<noteq> None) b)" by simp
  then have "(\<lambda>s. fst (snd (the s))) (b ! i) \<in> (\<lambda>s. fst (snd (the s))) ` set (filter (\<lambda>s. s \<noteq> None) b)"
    by (rule imageI)
  then show ?thesis
    by (simp add: slot_keys_def slot_key_def)
qed

lemma slot_keys_update:
  "set (slot_keys (b[s := x])) \<subseteq>
     (case x of None \<Rightarrow> {} | Some y \<Rightarrow> {fst (snd y)}) \<union> set (slot_keys b)"
proof
  fix k assume "k \<in> set (slot_keys (b[s := x]))"
  then obtain y where y: "y \<in> set (b[s := x])" "y \<noteq> None" "k = fst (snd (the y))"
    by (auto simp add: slot_keys_def)
  from y(1) have "y = x \<or> y \<in> set b"
    using set_update_subset_insert[of b s x] by auto
  then show "k \<in> (case x of None \<Rightarrow> {} | Some y \<Rightarrow> {fst (snd y)}) \<union> set (slot_keys b)"
  proof
    assume "y = x"
    with y(2,3) show ?thesis by (cases x) simp_all
  next
    assume "y \<in> set b"
    with y(2,3) show ?thesis by (force simp add: slot_keys_def)
  qed
qed

lemma table_keys_get_bucket:
  "unat r < length (buckets t) \<Longrightarrow> set (slot_keys (get_bucket t r)) \<subseteq> table_keys t"
  unfolding table_keys_def get_bucket_def
  using nth_mem[of "unat r" "buckets t"] by blast

lemma table_keys_set_bucket:
  "table_keys (set_bucket r b' t) \<subseteq> set (slot_keys b') \<union> table_keys t"
  using set_update_subset_insert[of "buckets t" "unat r" b']
  by (auto simp add: table_keys_def)

lemma set_bucket_beyond:
  "\<not> unat r < length (buckets t) \<Longrightarrow> set_bucket r b' t = t"
  by (simp add: set_bucket_def not_less list_update_beyond)

lemma table_keys_update_slot:
  "table_keys (set_bucket r ((get_bucket t r)[s := x]) t) \<subseteq>
     (case x of None \<Rightarrow> {} | Some y \<Rightarrow> {fst (snd y)}) \<union> table_keys t"
proof (cases "unat r < length (buckets t)")
  case True
  show ?thesis
    using table_keys_set_bucket[of r "(get_bucket t r)[s := x]" t]
      slot_keys_update[of "get_bucket t r" s x] table_keys_get_bucket[OF True]
    by blast
next
  case False
  then show ?thesis
    by (simp add: set_bucket_beyond)
qed

lemma table_keys_set_migrated [simp]: "table_keys (set_migrated l m t) = table_keys t"
  by (simp add: table_keys_def)

lemma table_keys_add_counter [simp]: "table_keys (add_counter l d t) = table_keys t"
  by (simp add: table_keys_def)

lemma table_keys_move_pair:
  assumes "unat src < length (buckets t)" and "fs < length (get_bucket t src)"
    and "occupied (get_bucket t src) fs"
  shows "table_keys (move_pair src fs dst ts t) \<subseteq> table_keys t"
proof -
  define fb where "fb = get_bucket t src"
  define t2 where "t2 = set_bucket dst ((get_bucket t dst)[ts :=
      Some (slot_partial fb fs, slot_key fb fs, slot_mapped fb fs)]) t"
  have mp: "move_pair src fs dst ts t = set_bucket src ((get_bucket t2 src)[fs := None]) t2"
    by (simp add: move_pair_def Let_def t2_def fb_def setKV_def eraseKV_def)
  have "slot_key fb fs \<in> table_keys t"
    using slot_key_in_slot_keys[OF assms(2,3)] table_keys_get_bucket[OF assms(1)]
    by (auto simp add: fb_def)
  moreover have "table_keys t2 \<subseteq> {slot_key fb fs} \<union> table_keys t"
    using table_keys_update_slot[of dst t ts
        "Some (slot_partial fb fs, slot_key fb fs, slot_mapped fb fs)"]
    by (simp add: t2_def)
  ultimately have "table_keys t2 \<subseteq> table_keys t" by auto
  moreover have "table_keys (move_pair src fs dst ts t) \<subseteq> table_keys t2"
    using table_keys_update_slot[of src t2 fs None] by (simp add: mp)
  ultimately show ?thesis by blast
qed

lemma shape_bucket_length:
  "table_shape cfg t \<Longrightarrow> unat i < length (buckets t)
     \<Longrightarrow> length (get_bucket t i) = slot_per_bucket cfg"
  by (simp add: table_shape_def get_bucket_def list_all_length)

section \<open>Shuffling pairs\<close>

lemma shuffle_steady: "shuffle cfg t t' \<Longrightarrow> steady t t'"
proof (induction rule: shuffle.induct)
  case (shuffle_refl t)
  show ?case by simp
next
  case (shuffle_move t t' src fs dst ts)
  then show ?case using steady_trans steady_move_pair by blast
next
  case (shuffle_flag t t' l)
  then show ?case using steady_trans steady_set_migrated_True by blast
qed

lemma shuffle_trans:
  assumes "shuffle cfg t1 t2"
  shows "shuffle cfg t0 t1 \<Longrightarrow> shuffle cfg t0 t2"
  using assms by (induction rule: shuffle.induct) (auto intro: shuffle.intros)

lemma shuffle_shape: "shuffle cfg t t' \<Longrightarrow> table_shape cfg t \<Longrightarrow> table_shape cfg t'"
  using shuffle_steady steady_shape by blast

lemma shuffle_keys:
  assumes "shuffle cfg t t'" and "table_shape cfg t"
  shows "table_keys t' \<subseteq> table_keys t"
  using assms
proof (induction rule: shuffle.induct)
  case (shuffle_refl t)
  show ?case by simp
next
  case (shuffle_move t t' src fs dst ts)
  have "table_shape cfg t'"
    using shuffle_move.hyps(1) shuffle_move.prems by (rule shuffle_shape)
  then have "length (get_bucket t' src) = slot_per_bucket cfg"
    using shuffle_move.hyps(2) by (rule shape_bucket_length)
  then have "table_keys (move_pair src fs dst ts t') \<subseteq> table_keys t'"
    using shuffle_move.hyps(2,3,4) by (simp add: table_keys_move_pair)
  then show ?case
    using shuffle_move.IH shuffle_move.prems by blast
next
  case (shuffle_flag t t' l)
  then show ?case by simp
qed

lemma fold_move_bucket_step_induct:
  assumes "Q (snd st)"
    and "\<And>t' s n. Q t' \<Longrightarrow> s < slot_per_bucket cfg \<Longrightarrow> occupied (get_bucket t' old_ref) s \<Longrightarrow>
           Q (after_set s (set_bucket new_ref (setKV (get_bucket t' new_ref) n
                (slot_partial (get_bucket t' old_ref) s) (slot_key (get_bucket t' old_ref) s)
                (slot_mapped (get_bucket t' old_ref) s)) t'))"
    and "\<forall>s \<in> set xs. s < slot_per_bucket cfg"
  shows "Q (snd (fold (move_bucket_step cfg old_hp old_ind old_ref new_ref after_set) xs st))"
  using assms(1,3)
proof (induction xs arbitrary: st)
  case Nil
  then show ?case by simp
next
  case (Cons x xs)
  have "Q (snd (move_bucket_step cfg old_hp old_ind old_ref new_ref after_set x st))"
    using Cons.prems assms(2)[of "snd st" x "fst st"]
    by (simp add: move_bucket_step_def Let_def)
  then show ?case
    using Cons.IH Cons.prems(2) by simp
qed

lemma move_bucket_induct:
  assumes "Q t"
    and "\<And>t' s n. Q t' \<Longrightarrow> s < slot_per_bucket cfg \<Longrightarrow> occupied (get_bucket t' old_ref) s \<Longrightarrow>
           Q (after_set s (set_bucket new_ref (setKV (get_bucket t' new_ref) n
                (slot_partial (get_bucket t' old_ref) s) (slot_key (get_bucket t' old_ref) s)
                (slot_mapped (get_bucket t' old_ref) s)) t'))"
  shows "Q (move_bucket cfg old_hp old_ind old_ref new_ref after_set t)"
  unfolding move_bucket_def
  by (rule fold_move_bucket_step_induct) (simp_all add: assms)

lemma move_bucket_erase_shuffle:
  assumes "shuffle cfg t0 t" and "unat bi < length (buckets t0)"
  shows "shuffle cfg t0 (move_bucket cfg ohp oi bi nr
           (\<lambda>s t'. set_bucket bi (eraseKV (get_bucket t' bi) s) t') t)"
proof (rule move_bucket_induct)
  show "shuffle cfg t0 t" by (rule assms(1))
next
  fix t' s n
  assume a: "shuffle cfg t0 t'" "s < slot_per_bucket cfg" "occupied (get_bucket t' bi) s"
  have "length (buckets t') = length (buckets t0)"
    using a(1) shuffle_steady steady_length_buckets by blast
  then have "shuffle cfg t0 (move_pair bi s nr n t')"
    using a assms(2) by (simp add: shuffle_move)
  then show "shuffle cfg t0
        (set_bucket bi
          (eraseKV
            (get_bucket
              (set_bucket nr
                (setKV (get_bucket t' nr) n (slot_partial (get_bucket t' bi) s)
                  (slot_key (get_bucket t' bi) s) (slot_mapped (get_bucket t' bi) s))
                t')
              bi)
            s)
          (set_bucket nr
            (setKV (get_bucket t' nr) n (slot_partial (get_bucket t' bi) s)
              (slot_key (get_bucket t' bi) s) (slot_mapped (get_bucket t' bi) s))
            t'))"
    by (simp add: move_pair_def Let_def)
qed

lemma unat_drop_bit_1: "unat (drop_bit 1 (sz :: size_type)) = unat sz div 2"
  by (simp add: unat_drop_bit_eq drop_bit_eq_div unat_div)

lemma unat_half_of_nat_le: "unat (drop_bit 1 (of_nat n :: size_type)) \<le> n"
proof -
  have "unat (drop_bit 1 (of_nat n :: size_type)) \<le> unat (of_nat n :: size_type)"
    unfolding unat_drop_bit_1 by simp
  also have "\<dots> \<le> n"
    by (simp add: unat_of_nat)
  finally show ?thesis .
qed

lemma migrate_lock_loop_shuffle:
  assumes "shuffle cfg t0 t" and "unat (drop_bit 1 sz) \<le> length (buckets t0)"
  shows "shuffle cfg t0 (migrate_lock_loop cfg sz bi t)"
  using assms
proof (induction cfg sz bi t rule: migrate_lock_loop.induct)
  case (1 cfg sz bi t)
  show ?case
  proof (cases "bi < drop_bit 1 sz")
    case False
    then show ?thesis
      using "1.prems" by (subst migrate_lock_loop.simps) simp
  next
    case True
    then have "unat bi < length (buckets t0)"
      using "1.prems"(2) by (simp add: word_less_nat_alt)
    with "1.prems"(1)
    have "shuffle cfg t0 (move_bucket cfg (hashpower t - 1) bi bi
            (bi + hashsize (hashpower t - 1))
            (\<lambda>old_bucket_slot t'. set_bucket bi (eraseKV (get_bucket t' bi) old_bucket_slot) t')
            t)"
      by (rule move_bucket_erase_shuffle)
    from "1.IH"[OF True this "1.prems"(2)] show ?thesis
      using True by (subst migrate_lock_loop.simps) simp
  qed
qed

lemma lock_and_rehash_shuffle: "shuffle cfg t (lock_and_rehash cfg l t)"
proof (cases "is_migrated (locks t ! unat l)")
  case True
  then show ?thesis by (simp add: lock_and_rehash_def shuffle_refl)
next
  case False
  have "shuffle cfg t (migrate_lock cfg l t)"
    unfolding migrate_lock_def bucket_count_def
    by (rule migrate_lock_loop_shuffle[OF shuffle_refl unat_half_of_nat_le])
  then show ?thesis
    using False by (simp add: lock_and_rehash_def shuffle_flag)
qed

lemma table_step_shuffle: "table_step cfg t t' \<Longrightarrow> shuffle cfg t t'"
proof (induction rule: table_step.induct)
  case (take_stripe t l)
  show ?case by (rule lock_and_rehash_shuffle)
next
  case (move src t dst fs ts)
  then show ?case by (simp add: shuffle_move[OF shuffle_refl])
qed

lemma table_steps_shuffle: "(table_step cfg)\<^sup>*\<^sup>* t t' \<Longrightarrow> shuffle cfg t t'"
proof (induction rule: rtranclp_induct)
  case base
  show ?case by (rule shuffle_refl)
next
  case (step y z)
  from table_step_shuffle[OF step.hyps(2)] step.IH show ?case
    by (rule shuffle_trans)
qed

lemma stripe_steps_shuffle: "stripe_steps cfg t t' \<Longrightarrow> shuffle cfg t t'"
  using stripe_steps_table_steps table_steps_shuffle by blast

section \<open>Candidate buckets\<close>

lemma steady_indices:
  assumes "steady t t'"
  shows "first_index cfg key t' = first_index cfg key t"
    and "second_index cfg key t' = second_index cfg key t"
  using assms by (simp_all add: first_index_def second_index_def steady_def)

lemma indices_in_range:
  assumes "table_shape cfg t"
  shows "unat (first_index cfg key t) < length (buckets t)"
    and "unat (second_index cfg key t) < length (buckets t)"
    and "unat (lock_ind (first_index cfg key t)) < length (locks t)"
    and "unat (lock_ind (second_index cfg key t)) < length (locks t)"
proof -
  have a: "unat (first_index cfg key t) < 2 ^ hashpower t"
    by (simp add: first_index_def index_hash_lt)
  have b: "unat (second_index cfg key t) < 2 ^ hashpower t"
    by (simp add: second_index_def alt_index_lt)
  have len: "length (buckets t) = 2 ^ hashpower t"
    using assms by (simp add: table_shape_def)
  show "unat (first_index cfg key t) < length (buckets t)"
    using a len by simp
  show "unat (second_index cfg key t) < length (buckets t)"
    using b len by simp
  show "unat (lock_ind (first_index cfg key t)) < length (locks t)"
    using assms a by (rule lock_ind_lt)
  show "unat (lock_ind (second_index cfg key t)) < length (locks t)"
    using assms b by (rule lock_ind_lt)
qed

lemma cuckoo_find_status:
  "pos_status (cuckoo_find cfg t key p i1 i2) = ok \<longleftrightarrow>
     bucket_has_key cfg (get_bucket t i1) p key \<or> bucket_has_key cfg (get_bucket t i2) p key"
  using try_read_none_iff[of cfg "get_bucket t i1" p key]
    try_read_none_iff[of cfg "get_bucket t i2" p key]
  by (simp add: cuckoo_find_def Let_def)

lemma cuckoo_find_not_found:
  "pos_status (cuckoo_find cfg t key p i1 i2) \<noteq> ok \<Longrightarrow>
     pos_status (cuckoo_find cfg t key p i1 i2) = failure_key_not_found"
  by (simp add: cuckoo_find_def Let_def split: if_splits)

lemma bucket_has_key_in_keys:
  assumes "bucket_has_key cfg (get_bucket t i) p key" and "table_shape cfg t"
    and "unat i < length (buckets t)"
  shows "key \<in> table_keys t"
proof -
  from assms(1) obtain j where j: "j < slot_per_bucket cfg"
      "occupied (get_bucket t i) j" "slot_key (get_bucket t i) j = key"
    by (auto simp add: bucket_has_key_def slot_matches_def)
  have "length (get_bucket t i) = slot_per_bucket cfg"
    using assms(2,3) by (rule shape_bucket_length)
  with j have "key \<in> set (slot_keys (get_bucket t i))"
    using slot_key_in_slot_keys[of j "get_bucket t i"] by simp
  then show ?thesis
    using table_keys_get_bucket[OF assms(3)] by blast
qed

lemma cuckoo_find_absent:
  assumes "table_shape cfg t" and "key \<notin> table_keys t"
    and "unat i1 < length (buckets t)" and "unat i2 < length (buckets t)"
  shows "pos_status (cuckoo_find cfg t key p i1 i2) \<noteq> ok"
  using assms bucket_has_key_in_keys[of cfg t i1 p key] bucket_has_key_in_keys[of cfg t i2 p key]
  by (auto simp add: cuckoo_find_status)

lemma stored_value_absent:
  assumes "table_shape cfg t" and "key \<notin> table_keys t"
  shows "stored_value cfg key t = None"
  using cuckoo_find_absent[OF assms indices_in_range(1,2)[OF assms(1)]]
  by (simp add: stored_value_def Let_def)

section \<open>The read loop\<close>

lemma read_value_loop_migrated:
  assumes "is_migrated (locks t ! unat (lock_ind (first_index cfg key t)))"
    and "is_migrated (locks t ! unat (lock_ind (second_index cfg key t)))"
  shows "read_value_loop cfg key (hashed_key cfg key) t = Some (stored_value cfg key t, t)"
  using assms
  by (subst read_value_loop.simps)
    (simp add: Let_def read_and_rehash_def stored_value_def first_index_def second_index_def)

lemma read_value_loop_first_migrated:
  assumes m1: "is_migrated (locks t ! unat (lock_ind (first_index cfg key t)))"
    and r1: "unat (lock_ind (first_index cfg key t)) < length (locks t)"
    and r2: "unat (lock_ind (second_index cfg key t)) < length (locks t)"
  shows "read_value_loop cfg key (hashed_key cfg key) t =
         Some (stored_value cfg key (lock_and_rehash cfg (lock_ind (second_index cfg key t)) t),
               lock_and_rehash cfg (lock_ind (second_index cfg key t)) t)"
proof (cases "is_migrated (locks t ! unat (lock_ind (second_index cfg key t)))")
  case True
  then show ?thesis
    using m1 by (simp add: lock_and_rehash_id read_value_loop_migrated)
next
  case False
  define t' where "t' = lock_and_rehash cfg (lock_ind (second_index cfg key t)) t"
  have st: "steady t t'"
    by (simp add: t'_def steady_lock_and_rehash)
  note fi = steady_indices[OF st, of cfg key]
  have ne: "lock_ind (first_index cfg key t) \<noteq> lock_ind (second_index cfg key t)"
    using m1 False by auto
  have t'_eq: "set_migrated (lock_ind (second_index cfg key t)) True
                 (migrate_lock cfg (lock_ind (second_index cfg key t)) t) = t'"
    using False by (simp add: t'_def lock_and_rehash_def)
  have "read_value_loop cfg key (hashed_key cfg key) t =
        read_value_loop cfg key (hashed_key cfg key) t'"
    using m1 False ne t'_eq
    by (subst read_value_loop.simps)
      (simp add: Let_def read_and_rehash_def first_index_def second_index_def)
  also have "\<dots> = Some (stored_value cfg key t', t')"
  proof (rule read_value_loop_migrated)
    show "is_migrated (locks t' ! unat (lock_ind (first_index cfg key t')))"
      using steady_migrated[OF st r1 m1] by (simp add: fi)
    show "is_migrated (locks t' ! unat (lock_ind (second_index cfg key t')))"
      using lock_and_rehash_migrated[OF r2, of cfg] unfolding fi unfolding t'_def .
  qed
  finally show ?thesis
    by (simp add: t'_def)
qed

lemma read_value_loop_eq:
  assumes r1: "unat (lock_ind (first_index cfg key t)) < length (locks t)"
    and r2: "unat (lock_ind (second_index cfg key t)) < length (locks t)"
  shows "read_value_loop cfg key (hashed_key cfg key) t =
         Some (stored_value cfg key (take_two cfg key t), take_two cfg key t)"
proof (cases "is_migrated (locks t ! unat (lock_ind (first_index cfg key t)))")
  case True
  then show ?thesis
    using read_value_loop_first_migrated[OF True r1 r2]
    by (simp add: take_two_def lock_and_rehash_id)
next
  case False
  define t' where "t' = lock_and_rehash cfg (lock_ind (first_index cfg key t)) t"
  have st: "steady t t'"
    by (simp add: t'_def steady_lock_and_rehash)
  note fi = steady_indices[OF st, of cfg key]
  have len: "length (locks t') = length (locks t)"
    using st by (rule steady_length_locks)
  have t'_eq: "set_migrated (lock_ind (first_index cfg key t)) True
                 (migrate_lock cfg (lock_ind (first_index cfg key t)) t) = t'"
    using False by (simp add: t'_def lock_and_rehash_def)
  have "read_value_loop cfg key (hashed_key cfg key) t =
        read_value_loop cfg key (hashed_key cfg key) t'"
    using False t'_eq
    by (subst read_value_loop.simps)
      (simp add: Let_def read_and_rehash_def first_index_def second_index_def)
  also have "\<dots> = Some (stored_value cfg key
                         (lock_and_rehash cfg (lock_ind (second_index cfg key t')) t'),
                       lock_and_rehash cfg (lock_ind (second_index cfg key t')) t')"
  proof (rule read_value_loop_first_migrated)
    show "is_migrated (locks t' ! unat (lock_ind (first_index cfg key t')))"
      using lock_and_rehash_migrated[OF r1, of cfg] unfolding fi unfolding t'_def .
    show "unat (lock_ind (first_index cfg key t')) < length (locks t')"
      using r1 by (simp add: fi len)
    show "unat (lock_ind (second_index cfg key t')) < length (locks t')"
      using r2 by (simp add: fi len)
  qed
  finally show ?thesis
    unfolding fi unfolding take_two_def t'_def .
qed

lemma read_value_eq:
  assumes "table_shape cfg t"
  shows "read_value cfg key t =
         Some (stored_value cfg key (take_two cfg key t), take_two cfg key t)"
  unfolding read_value_def
  by (rule read_value_loop_eq) (rule indices_in_range[OF assms])+

lemma take_two_stripe_steps: "stripe_steps cfg t (take_two cfg key t)"
  unfolding take_two_def
  by (rule stripe_steps_take) (rule stripe_steps_one)

lemma take_two_shuffle: "shuffle cfg t (take_two cfg key t)"
  by (rule stripe_steps_shuffle) (rule take_two_stripe_steps)

lemma snapshot_facts:
  assumes "snapshot_and_lock_two cfg (hashed_key cfg key) t = (b, t0)"
  shows "stripe_steps cfg t t0" and "tb_i1 b = first_index cfg key t"
    and "tb_i2 b = second_index cfg key t"
    and "tb_lock1 b = Some (lock_ind (tb_i1 b)) \<or> tb_lock1 b = Some (lock_ind (tb_i2 b))"
proof -
  have eq: "lock_two cfg (hashpower t) (first_index cfg key t) (second_index cfg key t) t
            = (b, t0)"
    using assms by (simp add: snapshot_and_lock_two_def Let_def first_index_def second_index_def)
  show "stripe_steps cfg t t0"
    using lock_two_steps[of cfg t "hashpower t" "first_index cfg key t" "second_index cfg key t"]
    by (simp add: eq)
  show i1: "tb_i1 b = first_index cfg key t"
    using lock_two_buckets(1)[of cfg "hashpower t" "first_index cfg key t"
        "second_index cfg key t" t]
    by (simp add: eq)
  show i2: "tb_i2 b = second_index cfg key t"
    using lock_two_buckets(2)[of cfg "hashpower t" "first_index cfg key t"
        "second_index cfg key t" t]
    by (simp add: eq)
  show "tb_lock1 b = Some (lock_ind (tb_i1 b)) \<or> tb_lock1 b = Some (lock_ind (tb_i2 b))"
    using lock_two_buckets(3)[of cfg "hashpower t" "first_index cfg key t"
        "second_index cfg key t" t]
    by (simp add: eq i1 i2)
qed

lemma snapshot_migrated:
  assumes "snapshot_and_lock_two cfg (hashed_key cfg key) t = (b, t0)"
    and "table_shape cfg t"
  shows "is_migrated (locks t0 ! unat (lock_ind (first_index cfg key t)))"
    and "is_migrated (locks t0 ! unat (lock_ind (second_index cfg key t)))"
proof -
  have eq: "lock_two cfg (hashpower t) (first_index cfg key t) (second_index cfg key t) t
            = (b, t0)"
    using assms(1)
    by (simp add: snapshot_and_lock_two_def Let_def first_index_def second_index_def)
  from lock_two_migrated[OF indices_in_range(3,4)[OF assms(2)], of cfg "hashpower t" key key]
  show "is_migrated (locks t0 ! unat (lock_ind (first_index cfg key t)))"
    and "is_migrated (locks t0 ! unat (lock_ind (second_index cfg key t)))"
    by (simp_all add: eq)
qed

section \<open>Looking up an absent key\<close>

lemma absent_after_snapshot:
  assumes "table_shape cfg t" and "key \<notin> table_keys t"
  shows "pos_status (cuckoo_find cfg (snd (snapshot_and_lock_two cfg (hashed_key cfg key) t))
           key (partial (hashed_key cfg key))
           (tb_i1 (fst (snapshot_and_lock_two cfg (hashed_key cfg key) t)))
           (tb_i2 (fst (snapshot_and_lock_two cfg (hashed_key cfg key) t)))) \<noteq> ok"
proof -
  obtain b t0 where s: "snapshot_and_lock_two cfg (hashed_key cfg key) t = (b, t0)"
    by (cases "snapshot_and_lock_two cfg (hashed_key cfg key) t")
  note f = snapshot_facts[OF s]
  have sh: "shuffle cfg t t0" using f(1) by (rule stripe_steps_shuffle)
  have shape0: "table_shape cfg t0" using sh assms(1) by (rule shuffle_shape)
  have absent0: "key \<notin> table_keys t0" using shuffle_keys[OF sh assms(1)] assms(2) by blast
  have len: "length (buckets t0) = length (buckets t)"
    using sh shuffle_steady steady_length_buckets by blast
  have "pos_status (cuckoo_find cfg t0 key (partial (hashed_key cfg key)) (tb_i1 b) (tb_i2 b))
          \<noteq> ok"
    using shape0 absent0
  proof (rule cuckoo_find_absent)
    show "unat (tb_i1 b) < length (buckets t0)"
      using indices_in_range(1)[OF assms(1), of key] by (simp add: f(2) len)
    show "unat (tb_i2 b) < length (buckets t0)"
      using indices_in_range(2)[OF assms(1), of key] by (simp add: f(3) len)
  qed
  then show ?thesis by (simp add: s)
qed

lemma read_value_absent:
  assumes "table_shape cfg t" and "key \<notin> table_keys t"
  shows "read_value cfg key t = Some (None, take_two cfg key t)"
proof -
  have sh: "shuffle cfg t (take_two cfg key t)" by (rule take_two_shuffle)
  have "stored_value cfg key (take_two cfg key t) = None"
  proof (rule stored_value_absent)
    show "table_shape cfg (take_two cfg key t)" using sh assms(1) by (rule shuffle_shape)
    show "key \<notin> table_keys (take_two cfg key t)"
      using shuffle_keys[OF sh assms(1)] assms(2) by blast
  qed
  then show ?thesis by (simp add: read_value_eq[OF assms(1)])
qed

text \<open>
  Claim C8. For a key that no slot of the table holds, only the variant of \<open>find\<close> that
  returns the value signals the miss as an error, \<open>KeyNotFound\<close>; \<open>find_fn\<close>,
  \<open>find(key, val)\<close> and \<open>contains\<close> return \<open>false\<close> (and \<open>val\<close> is left as it
  was), and so do \<open>update\<close>, \<open>update_fn\<close>, \<open>erase\<close> and \<open>erase_fn\<close>, whose results
  have no error at all. Every one of the reading variants returns: the read loop ends
  after at most two retries.
\<close>

theorem absent_key_reports:
  assumes "table_shape cfg t" and "key \<notin> table_keys t"
  shows "(\<exists>t'. find_value cfg key t = Some (Inl KeyNotFound, t')) \<and>
         (\<exists>t'. find_fn cfg key fn t = Some ((False, None), t')) \<and>
         (\<exists>t'. find_into cfg key val t = Some ((False, val), t')) \<and>
         (\<exists>t'. contains cfg key t = Some (False, t')) \<and>
         fst (update cfg key val t) = False \<and> fst (update_fn cfg key ufn t) = False \<and>
         fst (erase cfg key t) = False \<and> fst (erase_fn cfg key efn t) = False"
proof -
  note rv = read_value_absent[OF assms]
  note nf = absent_after_snapshot[OF assms]
  have "\<exists>t'. find_value cfg key t = Some (Inl KeyNotFound, t')"
    by (simp add: find_value_def rv)
  moreover have "\<exists>t'. find_fn cfg key fn t = Some ((False, None), t')"
    by (simp add: find_fn_def rv)
  moreover have "\<exists>t'. find_into cfg key val t = Some ((False, val), t')"
    by (simp add: find_into_def find_fn_def rv)
  moreover have "\<exists>t'. contains cfg key t = Some (False, t')"
    by (simp add: contains_def find_fn_def rv)
  moreover have "fst (update_fn cfg key g t) = False" for g
    using nf by (simp add: update_fn_def Let_def)
  moreover have "fst (erase_fn cfg key g t) = False" for g
    using nf by (simp add: erase_fn_def Let_def)
  ultimately show ?thesis
    by (simp add: update_def erase_def)
qed

theorem absent_key_reports_witness:
  "table_shape ex_cfg ex_one \<and> (1 :: nat) \<notin> table_keys ex_one \<and>
   (\<exists>t'. find_value ex_cfg 1 ex_one = Some (Inl KeyNotFound, t')) \<and>
   (\<exists>t'. contains ex_cfg 1 ex_one = Some (False, t')) \<and>
   fst (update ex_cfg 1 7 ex_one) = False \<and> fst (erase ex_cfg 1 ex_one) = False"
proof -
  have sh: "table_shape ex_cfg ex_one"
    by (simp add: table_shape_def ex_cfg_def ex_one_def kMaxNumLocksPow_def)
  have sk: "slot_keys [None, Some (0 :: partial_t, 0 :: nat, 10 :: nat)] = [0]"
      "slot_keys ([None, None] :: (nat, nat) bucket) = []"
    by (simp_all add: slot_keys_def)
  have ab: "(1 :: nat) \<notin> table_keys ex_one"
    by (simp add: table_keys_def ex_one_def sk)
  show ?thesis
    using absent_key_reports[OF sh ab, where val = 7] sh ab by blast
qed

section \<open>Replaying a cuckoo path\<close>

lemma table_steps_shape:
  "(table_step cfg)\<^sup>*\<^sup>* t t' \<Longrightarrow> table_shape cfg t \<Longrightarrow> table_shape cfg t'"
  using table_steps_shuffle shuffle_shape by blast

lemma occupied_move_pair_src:
  assumes "unat src < length (buckets t)" and "fs < length (get_bucket t src)"
  shows "\<not> occupied (get_bucket (move_pair src fs dst ts t) src) fs"
proof -
  define t2 where "t2 = set_bucket dst (setKV (get_bucket t dst) ts
      (slot_partial (get_bucket t src) fs) (slot_key (get_bucket t src) fs)
      (slot_mapped (get_bucket t src) fs)) t"
  have mp: "move_pair src fs dst ts t = set_bucket src (eraseKV (get_bucket t2 src) fs) t2"
    by (simp add: move_pair_def Let_def t2_def)
  have len: "length (buckets t2) = length (buckets t)"
    by (simp add: t2_def)
  have "length (get_bucket t2 src) = length (get_bucket t src)"
    by (auto simp add: t2_def get_bucket_set_bucket) (simp add: get_bucket_def)
  then have "fs < length (get_bucket t2 src)"
    using assms(2) by simp
  then show ?thesis
    using assms(1) len
    by (simp add: mp get_bucket_set_bucket occupied_def eraseKV_def)
qed

lemma cuckoopath_move_loop_Suc:
  "cuckoopath_move_loop cfg hp path (Suc d) b t =
    (let locked = (if d = 0
                   then (let r = lock_three cfg hp (tb_i1 b) (tb_i2 b) (cr_bucket (path ! Suc d)) t
                         in (fst (fst r), snd r))
                   else lock_two cfg hp (cr_bucket (path ! d)) (cr_bucket (path ! Suc d)) t);
         t1 = snd locked
     in if occupied (get_bucket t1 (cr_bucket (path ! Suc d))) (cr_slot (path ! Suc d)) \<or>
           \<not> occupied (get_bucket t1 (cr_bucket (path ! d))) (cr_slot (path ! d)) \<or>
           hash_function cfg (slot_key (get_bucket t1 (cr_bucket (path ! d))) (cr_slot (path ! d)))
             \<noteq> hash (cr_hv (path ! d))
        then (False, b, t1)
        else cuckoopath_move_loop cfg hp path d (if d = 0 then fst locked else b)
               (move_pair (cr_bucket (path ! d)) (cr_slot (path ! d))
                  (cr_bucket (path ! Suc d)) (cr_slot (path ! Suc d)) t1))"
  by (simp add: Let_def move_pair_def)

lemma cuckoopath_move_loop_facts:
  assumes "cuckoopath_move_loop cfg hp path d b t = (moved, b', t')"
    and "\<forall>j \<le> d. rec_ok cfg hp (path ! j)"
    and "table_shape cfg t" and "hp = hashpower t"
    and "unat (tb_i1 b) < 2 ^ hp" and "unat (tb_i2 b) < 2 ^ hp"
  shows "(table_step cfg)\<^sup>*\<^sup>* t t' \<and> tb_i1 b' = tb_i1 b \<and> tb_i2 b' = tb_i2 b \<and>
         (moved \<and> 0 < d \<longrightarrow>
            \<not> occupied (get_bucket t' (cr_bucket (path ! 0))) (cr_slot (path ! 0)) \<and>
            is_migrated (locks t' ! unat (lock_ind (tb_i1 b))) \<and>
            is_migrated (locks t' ! unat (lock_ind (tb_i2 b))) \<and>
            tb_lock1 b' = Some (lock_ind (tb_i1 b)))"
  using assms
proof (induction d arbitrary: b t moved b' t')
  case 0
  then show ?case by simp
next
  case (Suc d)
  define src where "src = path ! d"
  define dst where "dst = path ! Suc d"
  define r3 where "r3 = lock_three cfg hp (tb_i1 b) (tb_i2 b) (cr_bucket dst) t"
  define locked where "locked = (if d = 0 then (fst (fst r3), snd r3)
                                 else lock_two cfg hp (cr_bucket src) (cr_bucket dst) t)"
  define t1 where "t1 = snd locked"
  define t3 where "t3 = move_pair (cr_bucket src) (cr_slot src) (cr_bucket dst) (cr_slot dst) t1"
  define stop where "stop \<longleftrightarrow> occupied (get_bucket t1 (cr_bucket dst)) (cr_slot dst) \<or>
           \<not> occupied (get_bucket t1 (cr_bucket src)) (cr_slot src) \<or>
           hash_function cfg (slot_key (get_bucket t1 (cr_bucket src)) (cr_slot src))
             \<noteq> hash (cr_hv src)"
  have eq: "cuckoopath_move_loop cfg hp path (Suc d) b t =
        (if stop then (False, b, t1)
         else cuckoopath_move_loop cfg hp path d (if d = 0 then fst locked else b) t3)"
    by (simp only: cuckoopath_move_loop_Suc Let_def locked_def t1_def src_def dst_def
        r3_def t3_def stop_def)
  have ok_src: "rec_ok cfg hp src" and ok_dst: "rec_ok cfg hp dst"
    using Suc.prems(2) by (simp_all add: src_def dst_def)
  have len: "length (buckets t) = 2 ^ hp"
    using Suc.prems(3,4) by (simp add: table_shape_def)
  have l1: "unat (lock_ind (tb_i1 b)) < length (locks t)"
    and l2: "unat (lock_ind (tb_i2 b)) < length (locks t)"
    and ld: "unat (lock_ind (cr_bucket dst)) < length (locks t)"
    and ls: "unat (lock_ind (cr_bucket src)) < length (locks t)"
    using Suc.prems(3,4,5,6) ok_src ok_dst by (simp_all add: lock_ind_lt rec_ok_def)
  have st1: "stripe_steps cfg t t1"
    by (simp add: t1_def locked_def r3_def lock_three_steps lock_two_steps)
  have steady1: "steady t t1"
    using st1 by (rule stripe_steps_steady)
  have shape1: "table_shape cfg t1"
    using steady1 Suc.prems(3) by (rule steady_shape)
  have hp1: "hashpower t1 = hp"
    using steady1 Suc.prems(4) by (simp add: steady_def)
  have len1: "length (buckets t1) = 2 ^ hp" "length (locks t1) = length (locks t)"
    using steady1 len by (simp_all add: steady_length_buckets steady_length_locks)
  have mig_dst: "is_migrated (locks t1 ! unat (lock_ind (cr_bucket dst)))"
  proof (cases "d = 0")
    case True
    then show ?thesis
      using lock_three_migrated[OF _ ld, of "tb_i1 b" "tb_i2 b" "cr_bucket dst" cfg hp]
      by (simp add: t1_def locked_def r3_def)
  next
    case False
    then show ?thesis
      using lock_two_migrated[OF ls ld, of cfg hp]
      by (simp add: t1_def locked_def)
  qed
  show ?case
  proof (cases stop)
    case True
    then have "(moved, b', t') = (False, b, t1)"
      using Suc.prems(1) eq by simp
    then show ?thesis
      using st1 by (simp add: stripe_steps_table_steps)
  next
    case False
    have step: "table_step cfg t1 t3"
      unfolding t3_def
    proof (rule table_step.move)
      show "unat (cr_bucket src) < length (buckets t1)"
        using ok_src len1 by (simp add: rec_ok_def)
      show "unat (cr_bucket dst) < length (buckets t1)"
        using ok_dst len1 by (simp add: rec_ok_def)
      show "cr_slot src < slot_per_bucket cfg" "cr_slot dst < slot_per_bucket cfg"
        using ok_src ok_dst by (simp_all add: rec_ok_def)
      show "occupied (get_bucket t1 (cr_bucket src)) (cr_slot src)"
        "\<not> occupied (get_bucket t1 (cr_bucket dst)) (cr_slot dst)"
        using False by (simp_all add: stop_def)
      show "is_migrated (locks t1 ! unat (lock_ind (cr_bucket dst)))"
        by (rule mig_dst)
    qed
    have steps3: "(table_step cfg)\<^sup>*\<^sup>* t t3"
      using stripe_steps_table_steps[OF st1] step by simp
    have steady13: "steady t1 t3"
      using step by (rule table_step_steady)
    have shape3: "table_shape cfg t3"
      using steady13 shape1 by (rule steady_shape)
    have hp3: "hp = hashpower t3"
      using steady13 hp1 by (simp add: steady_def)
    define b2 where "b2 = (if d = 0 then fst locked else b)"
    have b2: "tb_i1 b2 = tb_i1 b" "tb_i2 b2 = tb_i2 b"
      by (simp_all add: b2_def locked_def r3_def lock_three_buckets)
    have rec: "cuckoopath_move_loop cfg hp path d b2 t3 = (moved, b', t')"
      using Suc.prems(1) eq False by (simp add: b2_def)
    have "\<forall>j \<le> d. rec_ok cfg hp (path ! j)"
      using Suc.prems(2) by simp
    from Suc.IH[OF rec this shape3 hp3] Suc.prems(5,6)
    have IH: "(table_step cfg)\<^sup>*\<^sup>* t3 t'" "tb_i1 b' = tb_i1 b" "tb_i2 b' = tb_i2 b"
      "moved \<and> 0 < d \<longrightarrow>
            \<not> occupied (get_bucket t' (cr_bucket (path ! 0))) (cr_slot (path ! 0)) \<and>
            is_migrated (locks t' ! unat (lock_ind (tb_i1 b))) \<and>
            is_migrated (locks t' ! unat (lock_ind (tb_i2 b))) \<and>
            tb_lock1 b' = Some (lock_ind (tb_i1 b))"
      by (simp_all add: b2)
    have last: "\<not> occupied (get_bucket t' (cr_bucket (path ! 0))) (cr_slot (path ! 0)) \<and>
            is_migrated (locks t' ! unat (lock_ind (tb_i1 b))) \<and>
            is_migrated (locks t' ! unat (lock_ind (tb_i2 b))) \<and>
            tb_lock1 b' = Some (lock_ind (tb_i1 b))" if "moved"
    proof (cases "d = 0")
      case False
      then show ?thesis using IH(4) that by simp
    next
      case True
      then have res: "b' = fst (fst r3)" "t' = t3"
        using rec by (simp_all add: b2_def locked_def)
      have src0: "path ! 0 = src"
        using True by (simp add: src_def)
      have "length (get_bucket t1 (cr_bucket src)) = slot_per_bucket cfg"
        using shape1 ok_src len1 by (simp add: shape_bucket_length rec_ok_def)
      then have free: "\<not> occupied (get_bucket t3 (cr_bucket src)) (cr_slot src)"
        unfolding t3_def using ok_src len1
        by (intro occupied_move_pair_src) (simp_all add: rec_ok_def)
      have m1: "is_migrated (locks t1 ! unat (lock_ind (tb_i1 b)))"
        using lock_three_migrated[OF _ l1, of "tb_i1 b" "tb_i2 b" "cr_bucket dst" cfg hp] True
        by (simp add: t1_def locked_def r3_def)
      have m2: "is_migrated (locks t1 ! unat (lock_ind (tb_i2 b)))"
        using lock_three_migrated[OF _ l2, of "tb_i1 b" "tb_i2 b" "cr_bucket dst" cfg hp] True
        by (simp add: t1_def locked_def r3_def)
      have "is_migrated (locks t3 ! unat (lock_ind (tb_i1 b)))"
        "is_migrated (locks t3 ! unat (lock_ind (tb_i2 b)))"
        using steady_migrated[OF steady13 _ m1] steady_migrated[OF steady13 _ m2] l1 l2 len1
        by simp_all
      moreover have "tb_lock1 b' = Some (lock_ind (tb_i1 b))"
        by (simp add: res r3_def lock_three_lock1)
      ultimately show ?thesis
        using free by (simp add: res src0)
    qed
    show ?thesis
      using steps3 IH(1,2,3) last by auto
  qed
qed

lemma cuckoopath_move_facts:
  assumes "cuckoopath_move cfg hp path depth b t = (moved, b', t')"
    and "\<forall>j \<le> depth. rec_ok cfg hp (path ! j)"
    and "table_shape cfg t" and "hp = hashpower t"
    and "unat (tb_i1 b) < 2 ^ hp" and "unat (tb_i2 b) < 2 ^ hp"
  shows "(table_step cfg)\<^sup>*\<^sup>* t t' \<and> tb_i1 b' = tb_i1 b \<and> tb_i2 b' = tb_i2 b \<and>
         (moved \<longrightarrow>
            \<not> occupied (get_bucket t' (cr_bucket (path ! 0))) (cr_slot (path ! 0)) \<and>
            is_migrated (locks t' ! unat (lock_ind (tb_i1 b))) \<and>
            is_migrated (locks t' ! unat (lock_ind (tb_i2 b))) \<and>
            (tb_lock1 b' = Some (lock_ind (tb_i1 b)) \<or>
             tb_lock1 b' = Some (lock_ind (tb_i2 b))))"
proof (cases "depth = 0")
  case False
  then have "cuckoopath_move_loop cfg hp path depth b t = (moved, b', t')"
    using assms(1) by (simp add: cuckoopath_move_def)
  from cuckoopath_move_loop_facts[OF this assms(2-6)] False show ?thesis
    by simp
next
  case True
  define r where "r = lock_two cfg hp (tb_i1 b) (tb_i2 b) t"
  have l1: "unat (lock_ind (tb_i1 b)) < length (locks t)"
    and l2: "unat (lock_ind (tb_i2 b)) < length (locks t)"
    using assms(3-6) by (simp_all add: lock_ind_lt)
  have "cuckoopath_move cfg hp path depth b t =
      (if \<not> occupied (get_bucket (snd r) (cr_bucket (path ! 0))) (cr_slot (path ! 0))
       then (True, fst r, snd r) else (False, unlock (fst r), snd r))"
    using True by (simp add: cuckoopath_move_def Let_def r_def)
  then have res: "(moved, b', t') =
      (if \<not> occupied (get_bucket (snd r) (cr_bucket (path ! 0))) (cr_slot (path ! 0))
       then (True, fst r, snd r) else (False, unlock (fst r), snd r))"
    using assms(1) by simp
  have st: "(table_step cfg)\<^sup>*\<^sup>* t (snd r)"
    unfolding r_def by (rule stripe_steps_table_steps) (rule lock_two_steps)
  have flds: "tb_i1 (fst r) = tb_i1 b" "tb_i2 (fst r) = tb_i2 b"
    "tb_lock1 (fst r) = Some (lock_ind (tb_i1 b)) \<or> tb_lock1 (fst r) = Some (lock_ind (tb_i2 b))"
    unfolding r_def by (rule lock_two_buckets)+
  have mig: "is_migrated (locks (snd r) ! unat (lock_ind (tb_i1 b)))"
    "is_migrated (locks (snd r) ! unat (lock_ind (tb_i2 b)))"
    using lock_two_migrated[OF l1 l2, of cfg hp] by (simp_all add: r_def)
  show ?thesis
  proof (cases "occupied (get_bucket (snd r) (cr_bucket (path ! 0))) (cr_slot (path ! 0))")
    case True
    then have "moved = False" "b' = unlock (fst r)" "t' = snd r"
      using res by auto
    then show ?thesis
      using st flds by (simp add: unlock_def)
  next
    case False
    then have "moved = True" "b' = fst r" "t' = snd r"
      using res by auto
    then show ?thesis
      using st flds mig False by simp
  qed
qed

section \<open>The loop of \<open>run_cuckoo\<close>\<close>

lemma run_cuckoo_loop_facts_aux:
  fixes cfg :: "'k config" and t :: "('k, 'v) table"
  assumes "run_cuckoo_loop cfg hp path b t = Some r"
  shows "table_shape cfg t \<longrightarrow> hp = hashpower t \<longrightarrow> unat (tb_i1 b) < 2 ^ hp \<longrightarrow>
         unat (tb_i2 b) < 2 ^ hp \<longrightarrow> length path = MAX_BFS_PATH_LEN \<longrightarrow>
         0 < slot_per_bucket cfg \<longrightarrow>
         (\<forall>st ib sl b' t'. r = (st, ib, sl, b', t') \<longrightarrow>
            (table_step cfg)\<^sup>*\<^sup>* t t' \<and> tb_i1 b' = tb_i1 b \<and> tb_i2 b' = tb_i2 b \<and>
            (st = ok \<or> st = failure) \<and>
            (st = ok \<longrightarrow>
               (ib = tb_i1 b \<or> ib = tb_i2 b) \<and> sl < slot_per_bucket cfg \<and>
               \<not> occupied (get_bucket t' ib) sl \<and>
               is_migrated (locks t' ! unat (lock_ind (tb_i1 b))) \<and>
               is_migrated (locks t' ! unat (lock_ind (tb_i2 b))) \<and>
               (tb_lock1 b' = Some (lock_ind (tb_i1 b)) \<or>
                tb_lock1 b' = Some (lock_ind (tb_i2 b)))))"
proof (rule run_cuckoo_loop.raw_induct[where P = "\<lambda>cfg hp path b t r.
         table_shape cfg t \<longrightarrow> hp = hashpower t \<longrightarrow> unat (tb_i1 b) < 2 ^ hp \<longrightarrow>
         unat (tb_i2 b) < 2 ^ hp \<longrightarrow> length path = MAX_BFS_PATH_LEN \<longrightarrow>
         0 < slot_per_bucket cfg \<longrightarrow>
         (\<forall>st ib sl b' t'. r = (st, ib, sl, b', t') \<longrightarrow>
            (table_step cfg)\<^sup>*\<^sup>* t t' \<and> tb_i1 b' = tb_i1 b \<and> tb_i2 b' = tb_i2 b \<and>
            (st = ok \<or> st = failure) \<and>
            (st = ok \<longrightarrow>
               (ib = tb_i1 b \<or> ib = tb_i2 b) \<and> sl < slot_per_bucket cfg \<and>
               \<not> occupied (get_bucket t' ib) sl \<and>
               is_migrated (locks t' ! unat (lock_ind (tb_i1 b))) \<and>
               is_migrated (locks t' ! unat (lock_ind (tb_i2 b))) \<and>
               (tb_lock1 b' = Some (lock_ind (tb_i1 b)) \<or>
                tb_lock1 b' = Some (lock_ind (tb_i2 b)))))", OF _ assms])
  fix f and cfg :: "'k config" and hp path b and t :: "('k, 'v) table" and r
  assume IH: "\<And>cfg hp path b t y. f cfg hp path b t = Some y \<Longrightarrow>
         table_shape cfg t \<longrightarrow> hp = hashpower t \<longrightarrow> unat (tb_i1 b) < 2 ^ hp \<longrightarrow>
         unat (tb_i2 b) < 2 ^ hp \<longrightarrow> length path = MAX_BFS_PATH_LEN \<longrightarrow>
         0 < slot_per_bucket cfg \<longrightarrow>
         (\<forall>st ib sl b' t'. y = (st, ib, sl, b', t') \<longrightarrow>
            (table_step cfg)\<^sup>*\<^sup>* t t' \<and> tb_i1 b' = tb_i1 b \<and> tb_i2 b' = tb_i2 b \<and>
            (st = ok \<or> st = failure) \<and>
            (st = ok \<longrightarrow>
               (ib = tb_i1 b \<or> ib = tb_i2 b) \<and> sl < slot_per_bucket cfg \<and>
               \<not> occupied (get_bucket t' ib) sl \<and>
               is_migrated (locks t' ! unat (lock_ind (tb_i1 b))) \<and>
               is_migrated (locks t' ! unat (lock_ind (tb_i2 b))) \<and>
               (tb_lock1 b' = Some (lock_ind (tb_i1 b)) \<or>
                tb_lock1 b' = Some (lock_ind (tb_i2 b)))))"
    and body: "(case cuckoopath_search cfg hp path (tb_i1 b) (tb_i2 b) t of
       None \<Rightarrow> None
     | Some (depth, path1, t1) \<Rightarrow>
         if depth < 0 then Some (failure, 0, 0, b, t1)
         else
           (case cuckoopath_move cfg hp path1 (nat depth) b t1 of
              (moved, b2, t2) \<Rightarrow>
                if moved
                then Some (ok, cr_bucket (path1 ! 0), cr_slot (path1 ! 0), b2, t2)
                else f cfg hp path1 b2 t2)) = Some r"
  show "table_shape cfg t \<longrightarrow> hp = hashpower t \<longrightarrow> unat (tb_i1 b) < 2 ^ hp \<longrightarrow>
         unat (tb_i2 b) < 2 ^ hp \<longrightarrow> length path = MAX_BFS_PATH_LEN \<longrightarrow>
         0 < slot_per_bucket cfg \<longrightarrow>
         (\<forall>st ib sl b' t'. r = (st, ib, sl, b', t') \<longrightarrow>
            (table_step cfg)\<^sup>*\<^sup>* t t' \<and> tb_i1 b' = tb_i1 b \<and> tb_i2 b' = tb_i2 b \<and>
            (st = ok \<or> st = failure) \<and>
            (st = ok \<longrightarrow>
               (ib = tb_i1 b \<or> ib = tb_i2 b) \<and> sl < slot_per_bucket cfg \<and>
               \<not> occupied (get_bucket t' ib) sl \<and>
               is_migrated (locks t' ! unat (lock_ind (tb_i1 b))) \<and>
               is_migrated (locks t' ! unat (lock_ind (tb_i2 b))) \<and>
               (tb_lock1 b' = Some (lock_ind (tb_i1 b)) \<or>
                tb_lock1 b' = Some (lock_ind (tb_i2 b)))))"
  proof (intro impI allI)
    fix st ib sl b' t'
    assume shape: "table_shape cfg t" and hp: "hp = hashpower t"
      and r1: "unat (tb_i1 b) < 2 ^ hp" and r2: "unat (tb_i2 b) < 2 ^ hp"
      and len: "length path = MAX_BFS_PATH_LEN" and S: "0 < slot_per_bucket cfg"
      and r: "r = (st, ib, sl, b', t')"
    from body obtain depth path1 t1 where
      cs: "cuckoopath_search cfg hp path (tb_i1 b) (tb_i2 b) t = Some (depth, path1, t1)"
      by (cases "cuckoopath_search cfg hp path (tb_i1 b) (tb_i2 b) t") auto
    from cuckoopath_search_facts[OF cs S len r1 r2]
    have st1: "stripe_steps cfg t t1" and len1: "length path1 = MAX_BFS_PATH_LEN"
      and found: "depth = - 1 \<or>
          (0 \<le> depth \<and> nat depth < length path1 \<and> (\<forall>j \<le> nat depth. rec_ok cfg hp (path1 ! j)) \<and>
           (cr_bucket (path1 ! 0) = tb_i1 b \<or> cr_bucket (path1 ! 0) = tb_i2 b))"
      using len by auto
    have steps1: "(table_step cfg)\<^sup>*\<^sup>* t t1"
      using st1 by (rule stripe_steps_table_steps)
    have shape1: "table_shape cfg t1"
      using steps1 shape by (rule table_steps_shape)
    have hp1: "hp = hashpower t1"
      using stripe_steps_steady[OF st1] hp by (simp add: steady_def)
    show "(table_step cfg)\<^sup>*\<^sup>* t t' \<and> tb_i1 b' = tb_i1 b \<and> tb_i2 b' = tb_i2 b \<and>
            (st = ok \<or> st = failure) \<and>
            (st = ok \<longrightarrow>
               (ib = tb_i1 b \<or> ib = tb_i2 b) \<and> sl < slot_per_bucket cfg \<and>
               \<not> occupied (get_bucket t' ib) sl \<and>
               is_migrated (locks t' ! unat (lock_ind (tb_i1 b))) \<and>
               is_migrated (locks t' ! unat (lock_ind (tb_i2 b))) \<and>
               (tb_lock1 b' = Some (lock_ind (tb_i1 b)) \<or>
                tb_lock1 b' = Some (lock_ind (tb_i2 b))))"
    proof (cases "depth < 0")
      case True
      then have "r = (failure, 0, 0, b, t1)"
        using body cs by simp
      then show ?thesis
        using r steps1 by simp
    next
      case False
      then have recs: "\<forall>j \<le> nat depth. rec_ok cfg hp (path1 ! j)"
        and first: "cr_bucket (path1 ! 0) = tb_i1 b \<or> cr_bucket (path1 ! 0) = tb_i2 b"
        using found by auto
      obtain moved b2 t2 where
        mv: "cuckoopath_move cfg hp path1 (nat depth) b t1 = (moved, b2, t2)"
        by (cases "cuckoopath_move cfg hp path1 (nat depth) b t1") auto
      from cuckoopath_move_facts[OF mv recs shape1 hp1 r1 r2]
      have steps2: "(table_step cfg)\<^sup>*\<^sup>* t1 t2"
        and flds: "tb_i1 b2 = tb_i1 b" "tb_i2 b2 = tb_i2 b"
        and fin: "moved \<longrightarrow>
            \<not> occupied (get_bucket t2 (cr_bucket (path1 ! 0))) (cr_slot (path1 ! 0)) \<and>
            is_migrated (locks t2 ! unat (lock_ind (tb_i1 b))) \<and>
            is_migrated (locks t2 ! unat (lock_ind (tb_i2 b))) \<and>
            (tb_lock1 b2 = Some (lock_ind (tb_i1 b)) \<or>
             tb_lock1 b2 = Some (lock_ind (tb_i2 b)))"
        by simp_all
      have steps12: "(table_step cfg)\<^sup>*\<^sup>* t t2"
        using steps1 steps2 by simp
      show ?thesis
      proof (cases moved)
        case True
        then have "r = (ok, cr_bucket (path1 ! 0), cr_slot (path1 ! 0), b2, t2)"
          using body cs mv False by simp
        moreover have "cr_slot (path1 ! 0) < slot_per_bucket cfg"
          using recs by (simp add: rec_ok_def)
        ultimately show ?thesis
          using r steps12 flds fin True first by simp
      next
        case False
        then have call: "f cfg hp path1 b2 t2 = Some r"
          using body cs mv \<open>\<not> depth < 0\<close> by simp
        have shape2: "table_shape cfg t2"
          using steps12 shape by (rule table_steps_shape)
        have hp2: "hp = hashpower t2"
          using shuffle_steady[OF table_steps_shuffle[OF steps12]] hp by (simp add: steady_def)
        from IH[OF call] shape2 hp2 r1 r2 len1 S r flds
        have "(table_step cfg)\<^sup>*\<^sup>* t2 t' \<and> tb_i1 b' = tb_i1 b \<and> tb_i2 b' = tb_i2 b \<and>
            (st = ok \<or> st = failure) \<and>
            (st = ok \<longrightarrow>
               (ib = tb_i1 b \<or> ib = tb_i2 b) \<and> sl < slot_per_bucket cfg \<and>
               \<not> occupied (get_bucket t' ib) sl \<and>
               is_migrated (locks t' ! unat (lock_ind (tb_i1 b))) \<and>
               is_migrated (locks t' ! unat (lock_ind (tb_i2 b))) \<and>
               (tb_lock1 b' = Some (lock_ind (tb_i1 b)) \<or>
                tb_lock1 b' = Some (lock_ind (tb_i2 b))))"
          by simp
        then show ?thesis
          using steps12 by auto
      qed
    qed
  qed
qed

lemma run_cuckoo_facts:
  fixes cfg :: "'k config" and t :: "('k, 'v) table"
  assumes "run_cuckoo cfg b t = Some (st, ib, sl, b', t')"
    and "table_shape cfg t"
    and "unat (tb_i1 b) < 2 ^ hashpower t" and "unat (tb_i2 b) < 2 ^ hashpower t"
    and "0 < slot_per_bucket cfg"
  shows "(table_step cfg)\<^sup>*\<^sup>* t t' \<and> tb_i1 b' = tb_i1 b \<and> tb_i2 b' = tb_i2 b \<and>
         (st = ok \<or> st = failure) \<and>
         (st = ok \<longrightarrow>
            (ib = tb_i1 b \<or> ib = tb_i2 b) \<and> sl < slot_per_bucket cfg \<and>
            \<not> occupied (get_bucket t' ib) sl \<and>
            is_migrated (locks t' ! unat (lock_ind (tb_i1 b))) \<and>
            is_migrated (locks t' ! unat (lock_ind (tb_i2 b))) \<and>
            (tb_lock1 b' = Some (lock_ind (tb_i1 b)) \<or>
             tb_lock1 b' = Some (lock_ind (tb_i2 b))))"
proof -
  have call: "run_cuckoo_loop cfg (hashpower t) cuckoo_path_new (unlock b) t =
                Some (st, ib, sl, b', t')"
    using assms(1) by (simp add: run_cuckoo_def)
  have len: "length cuckoo_path_new = MAX_BFS_PATH_LEN"
    by (simp add: cuckoo_path_new_def)
  from run_cuckoo_loop_facts_aux[OF call] assms(2-5) len
  show ?thesis
    by (simp add: unlock_def)
qed

section \<open>The position found by \<open>cuckoo_insert\<close>\<close>

lemma tfib_nodup_fst:
  assumes "\<not> bucket_has_key cfg b p key"
  shows "fst (try_find_insert_bucket cfg b p key) = True"
  using tfib_nodup_empty[OF assms] tfib_nodup_full[OF assms]
  by (cases "has_empty_slot cfg b") auto

lemma cuckoo_find_found:
  assumes "pos_status (cuckoo_find cfg t key p i1 i2) = ok"
  shows "(pos_index (cuckoo_find cfg t key p i1 i2) = i1 \<or>
          pos_index (cuckoo_find cfg t key p i1 i2) = i2) \<and>
         pos_slot (cuckoo_find cfg t key p i1 i2) < slot_per_bucket cfg \<and>
         slot_matches cfg (get_bucket t (pos_index (cuckoo_find cfg t key p i1 i2))) p key
           (pos_slot (cuckoo_find cfg t key p i1 i2))"
proof (cases "try_read_from_bucket cfg (get_bucket t i1) p key = - 1")
  case False
  from try_read_found[OF False] obtain r where
    r: "try_read_from_bucket cfg (get_bucket t i1) p key = int r" "r < slot_per_bucket cfg"
      "slot_matches cfg (get_bucket t i1) p key r"
    by blast
  have "cuckoo_find cfg t key p i1 i2 = \<lparr>pos_index = i1, pos_slot = r, pos_status = ok\<rparr>"
    using r(1) by (simp add: cuckoo_find_def Let_def)
  then show ?thesis
    using r by simp
next
  case True
  then have "try_read_from_bucket cfg (get_bucket t i2) p key \<noteq> - 1"
    using assms by (auto simp add: cuckoo_find_def Let_def)
  from try_read_found[OF this] obtain r where
    r: "try_read_from_bucket cfg (get_bucket t i2) p key = int r" "r < slot_per_bucket cfg"
      "slot_matches cfg (get_bucket t i2) p key r"
    by blast
  have "cuckoo_find cfg t key p i1 i2 = \<lparr>pos_index = i2, pos_slot = r, pos_status = ok\<rparr>"
    using r(1) True by (simp add: cuckoo_find_def Let_def)
  then show ?thesis
    using r by simp
qed

lemma holds_two_ranges:
  assumes "holds_two cfg key b t"
  shows "unat (tb_i1 b) < 2 ^ hashpower t" and "unat (tb_i2 b) < 2 ^ hashpower t"
  using assms
  by (simp_all add: holds_two_def first_index_def second_index_def index_hash_lt alt_index_lt)

lemma cuckoo_insert_facts:
  fixes cfg :: "'k config" and t :: "('k, 'v) table"
  assumes ci: "cuckoo_insert cfg (hashed_key cfg key) b key t = Some (pos, b1, t1)"
    and h: "holds_two cfg key b t" and S: "0 < slot_per_bucket cfg"
  shows "(table_step cfg)\<^sup>*\<^sup>* t t1 \<and>
         (pos_status pos = failure_table_full \<or>
          holds_two cfg key b1 t1 \<and> position_ok cfg key pos b1 t1)"
proof -
  define p where "p = partial (hashed_key cfg key)"
  define B1 where "B1 = get_bucket t (tb_i1 b)"
  define B2 where "B2 = get_bucket t (tb_i2 b)"
  consider (d1) "bucket_has_key cfg B1 p key"
    | (d2) "\<not> bucket_has_key cfg B1 p key" "bucket_has_key cfg B2 p key"
    | (e1) "\<not> bucket_has_key cfg B1 p key" "\<not> bucket_has_key cfg B2 p key"
        "has_empty_slot cfg B1"
    | (e2) "\<not> bucket_has_key cfg B1 p key" "\<not> bucket_has_key cfg B2 p key"
        "\<not> has_empty_slot cfg B1" "has_empty_slot cfg B2"
    | (full) "\<not> bucket_has_key cfg B1 p key" "\<not> bucket_has_key cfg B2 p key"
        "\<not> has_empty_slot cfg B1" "\<not> has_empty_slot cfg B2"
    by blast
  then show ?thesis
  proof cases
    case d1
    have r1: "try_find_insert_bucket cfg B1 p key = (False, try_read_from_bucket cfg B1 p key)"
      using d1 by (rule tfib_dup)
    have "try_read_from_bucket cfg B1 p key \<noteq> - 1"
      using d1 by (simp add: try_read_none_iff)
    from try_read_found[OF this] obtain r where
      r: "try_read_from_bucket cfg B1 p key = int r" "r < slot_per_bucket cfg"
        "slot_matches cfg B1 p key r"
      by blast
    have "cuckoo_insert cfg (hashed_key cfg key) b key t =
            Some (\<lparr>pos_index = tb_i1 b, pos_slot = r, pos_status = failure_key_duplicated\<rparr>,
                  b, t)"
      using r1 r(1) by (simp add: cuckoo_insert_def Let_def p_def B1_def)
    then have res: "pos = \<lparr>pos_index = tb_i1 b, pos_slot = r,
                            pos_status = failure_key_duplicated\<rparr>" "b1 = b" "t1 = t"
      using ci by simp_all
    show ?thesis
      using h r by (simp add: res position_ok_def p_def B1_def)
  next
    case d2
    have f1: "fst (try_find_insert_bucket cfg B1 p key) = True"
      using d2(1) by (rule tfib_nodup_fst)
    have r2: "try_find_insert_bucket cfg B2 p key = (False, try_read_from_bucket cfg B2 p key)"
      using d2(2) by (rule tfib_dup)
    have "try_read_from_bucket cfg B2 p key \<noteq> - 1"
      using d2(2) by (simp add: try_read_none_iff)
    from try_read_found[OF this] obtain r where
      r: "try_read_from_bucket cfg B2 p key = int r" "r < slot_per_bucket cfg"
        "slot_matches cfg B2 p key r"
      by blast
    have "cuckoo_insert cfg (hashed_key cfg key) b key t =
            Some (\<lparr>pos_index = tb_i2 b, pos_slot = r, pos_status = failure_key_duplicated\<rparr>,
                  b, t)"
      using f1 r2 r(1) by (simp add: cuckoo_insert_def Let_def p_def B1_def B2_def)
    then have res: "pos = \<lparr>pos_index = tb_i2 b, pos_slot = r,
                            pos_status = failure_key_duplicated\<rparr>" "b1 = b" "t1 = t"
      using ci by simp_all
    show ?thesis
      using h r by (simp add: res position_ok_def p_def B2_def)
  next
    case e1
    from cuckoo_insert_first_bucket[of cfg t b "hashed_key cfg key" key]
      e1[unfolded B1_def B2_def p_def]
    obtain e where e: "is_last_empty_slot cfg (get_bucket t (tb_i1 b)) e"
      "cuckoo_insert cfg (hashed_key cfg key) b key t =
         Some (\<lparr>pos_index = tb_i1 b, pos_slot = e, pos_status = ok\<rparr>, b, t)"
      by blast
    then have res: "pos = \<lparr>pos_index = tb_i1 b, pos_slot = e, pos_status = ok\<rparr>"
      "b1 = b" "t1 = t"
      using ci by simp_all
    show ?thesis
      using h e(1) e1(1,2)
      by (simp add: res position_ok_def is_last_empty_slot_def p_def B1_def B2_def)
  next
    case e2
    from cuckoo_insert_second_bucket[of cfg t b "hashed_key cfg key" key]
      e2[unfolded B1_def B2_def p_def]
    obtain e where e: "is_last_empty_slot cfg (get_bucket t (tb_i2 b)) e"
      "cuckoo_insert cfg (hashed_key cfg key) b key t =
         Some (\<lparr>pos_index = tb_i2 b, pos_slot = e, pos_status = ok\<rparr>, b, t)"
      by blast
    then have res: "pos = \<lparr>pos_index = tb_i2 b, pos_slot = e, pos_status = ok\<rparr>"
      "b1 = b" "t1 = t"
      using ci by simp_all
    show ?thesis
      using h e(1) e2(1,2)
      by (simp add: res position_ok_def is_last_empty_slot_def p_def B1_def B2_def)
  next
    case full
    have r1: "try_find_insert_bucket cfg B1 p key = (True, - 1)"
      using full(1,3) by (rule tfib_nodup_full)
    have r2: "try_find_insert_bucket cfg B2 p key = (True, - 1)"
      using full(2,4) by (rule tfib_nodup_full)
    have eq: "cuckoo_insert cfg (hashed_key cfg key) b key t =
         (case run_cuckoo cfg b t of
            None \<Rightarrow> None
          | Some (st, insert_bucket, insert_slot, b', t') \<Rightarrow>
              if st = failure_under_expansion
              then Some (\<lparr>pos_index = 0, pos_slot = 0,
                          pos_status = failure_under_expansion\<rparr>, b', t')
              else if st = ok
              then
                (let pos = cuckoo_find cfg t' key (partial (hashed_key cfg key))
                             (tb_i1 b') (tb_i2 b')
                 in if pos_status pos = ok
                    then Some (pos\<lparr>pos_status := failure_key_duplicated\<rparr>, b', t')
                    else Some (\<lparr>pos_index = insert_bucket, pos_slot = insert_slot,
                                pos_status = ok\<rparr>, b', t'))
              else Some (\<lparr>pos_index = 0, pos_slot = 0,
                          pos_status = failure_table_full\<rparr>, b', t'))"
      using r1 r2 by (simp add: cuckoo_insert_def Let_def p_def B1_def B2_def)
    from ci eq obtain st ib sl b' t' where rc: "run_cuckoo cfg b t = Some (st, ib, sl, b', t')"
      by (cases "run_cuckoo cfg b t") auto
    have shape: "table_shape cfg t"
      using h by (simp add: holds_two_def)
    from run_cuckoo_facts[OF rc shape holds_two_ranges[OF h] S]
    have steps: "(table_step cfg)\<^sup>*\<^sup>* t t'"
      and flds: "tb_i1 b' = tb_i1 b" "tb_i2 b' = tb_i2 b"
      and sts: "st = ok \<or> st = failure"
      and good: "st = ok \<longrightarrow>
            (ib = tb_i1 b \<or> ib = tb_i2 b) \<and> sl < slot_per_bucket cfg \<and>
            \<not> occupied (get_bucket t' ib) sl \<and>
            is_migrated (locks t' ! unat (lock_ind (tb_i1 b))) \<and>
            is_migrated (locks t' ! unat (lock_ind (tb_i2 b))) \<and>
            (tb_lock1 b' = Some (lock_ind (tb_i1 b)) \<or>
             tb_lock1 b' = Some (lock_ind (tb_i2 b)))"
      by simp_all
    have b1t1: "b1 = b'" "t1 = t'"
      using ci eq rc by (auto simp add: Let_def split: if_splits)
    show ?thesis
    proof (cases "st = ok")
      case False
      then have "pos_status pos = failure_table_full"
        using ci eq rc sts by auto
      then show ?thesis
        using steps b1t1 by simp
    next
      case True
      have st: "steady t t'"
        using steps table_steps_shuffle shuffle_steady by blast
      have h': "holds_two cfg key b' t'"
        using h good True flds steady_indices[OF st, of cfg key] table_steps_shape[OF steps shape]
        by (simp add: holds_two_def)
      define fp where "fp = cuckoo_find cfg t' key (partial (hashed_key cfg key))
                              (tb_i1 b') (tb_i2 b')"
      show ?thesis
      proof (cases "pos_status fp = ok")
        case dup: True
        then have res: "pos = fp\<lparr>pos_status := failure_key_duplicated\<rparr>"
          using ci eq rc True by (auto simp add: Let_def fp_def)
        from cuckoo_find_found[OF dup[unfolded fp_def]]
        have "position_ok cfg key pos b' t'"
          by (simp add: res position_ok_def fp_def[symmetric] p_def)
        then show ?thesis
          using steps h' b1t1 by simp
      next
        case nodup: False
        then have res: "pos = \<lparr>pos_index = ib, pos_slot = sl, pos_status = ok\<rparr>"
          using ci eq rc True by (auto simp add: Let_def fp_def)
        have "\<not> bucket_has_key cfg (get_bucket t' (tb_i1 b')) p key \<and>
              \<not> bucket_has_key cfg (get_bucket t' (tb_i2 b')) p key"
          using nodup by (simp add: fp_def cuckoo_find_status p_def)
        then have "position_ok cfg key pos b' t'"
          using good True flds by (simp add: res position_ok_def p_def)
        then show ?thesis
          using steps h' b1t1 by simp
      qed
    qed
  qed
qed

section \<open>Doubling the table\<close>

lemma table_size_sum: "table_size t = sum_list (map elem_counter (locks t))"
proof -
  have "foldl (\<lambda>s lock. s + elem_counter lock) a ls = a + sum_list (map elem_counter ls)" for a ls
    by (induction ls arbitrary: a) simp_all
  from this[of 0] show ?thesis
    by (simp add: table_size_def)
qed

lemma sum_list_update_int:
  "k < length xs \<Longrightarrow> sum_list (xs[k := x]) = sum_list xs + x - (xs ! k :: int)"
  by (induction xs arbitrary: k) (auto split: nat.splits)

lemma table_size_add_counter:
  assumes "unat l < length (locks t)"
  shows "table_size (add_counter l d t) = table_size t + d"
proof -
  have "map elem_counter (locks (add_counter l d t)) =
        (map elem_counter (locks t))[unat l := elem_counter (locks t ! unat l) + d]"
    by (simp add: add_counter_def map_update)
  then show ?thesis
    using assms by (simp add: table_size_sum sum_list_update_int)
qed

lemma table_size_set_migrated [simp]: "table_size (set_migrated l m t) = table_size t"
  by (simp add: table_size_sum)

lemma table_size_set_bucket [simp]: "table_size (set_bucket i b t) = table_size t"
  by (simp add: table_size_sum)

lemma table_shape_add_counter [simp]:
  "table_shape cfg (add_counter l d t) = table_shape cfg t"
  by (simp add: table_shape_def)

lemma table_shape_set_migrated [simp]:
  "table_shape cfg (set_migrated l m t) = table_shape cfg t"
  by (simp add: table_shape_def)

lemma locks_move_pair [simp]: "locks (move_pair src fs dst ts t) = locks t"
  by (simp add: move_pair_def Let_def)

lemma kept_refl: "table_shape cfg t \<Longrightarrow> kept cfg t t"
  by (simp add: kept_def)

lemma kept_trans:
  "kept cfg t0 t1 \<Longrightarrow> kept cfg t1 t2 \<Longrightarrow> kept cfg t0 t2"
  by (auto simp add: kept_def)

lemma shuffle_kept:
  assumes "shuffle cfg t t'" and "table_shape cfg t"
  shows "kept cfg t t'"
proof -
  have st: "steady t t'" using assms(1) by (rule shuffle_steady)
  show ?thesis
    using shuffle_shape[OF assms] shuffle_keys[OF assms] steady_table_size[OF st] st
    by (simp add: kept_def steady_def)
qed

lemma pow2_less: "hp < n \<Longrightarrow> (2::nat) ^ hp < 2 ^ n"
  by (rule power_strict_increasing) simp_all

lemma unat_hashsize: "hp < 64 \<Longrightarrow> unat (hashsize hp) = 2 ^ hp"
proof -
  assume a: "hp < 64"
  have "unat (push_bit hp 1 :: size_type) = take_bit 64 (push_bit hp (1::nat))"
    by (simp only: unsigned_push_bit_eq unsigned_1 len_of_numeral_defs) simp
  also have "\<dots> = 2 ^ hp"
    using a by (simp add: take_bit_nat_eq_self)
  finally show ?thesis
    by (simp only: hashsize_def)
qed

lemma unat_of_nat_small: "i < 2 ^ hp \<Longrightarrow> hp < 64 \<Longrightarrow> unat (of_nat i :: size_type) = i"
proof -
  assume a: "i < 2 ^ hp" "hp < 64"
  have "i < 2 ^ 64" using a(1) pow2_less[OF a(2)] by simp
  then show ?thesis by (simp add: unat_of_nat)
qed

lemma unat_upper_index:
  assumes "hp < 64" and "i < 2 ^ hp"
  shows "unat (hashsize hp + of_nat i) = 2 ^ hp + i"
proof -
  have u1: "unat (hashsize hp) = 2 ^ hp" using assms(1) by (rule unat_hashsize)
  have u2: "unat (of_nat i :: size_type) = i" using assms(2,1) by (rule unat_of_nat_small)
  have "(2::nat) ^ hp \<le> 2 ^ 63" using assms(1) by (intro power_increasing) simp_all
  then have "2 ^ hp + i < (2::nat) ^ 64" using assms(2) by simp
  then show ?thesis
    by (simp only: unat_word_ariths u1 u2) simp
qed

lemma fold_lock_and_rehash_shuffle:
  "shuffle cfg t0 t \<Longrightarrow> shuffle cfg t0 (fold (\<lambda>i t'. lock_and_rehash cfg (g i) t') xs t)"
proof (induction xs arbitrary: t)
  case Nil
  then show ?case by simp
next
  case (Cons x xs)
  have "shuffle cfg t0 (lock_and_rehash cfg (g x) t)"
    using lock_and_rehash_shuffle Cons.prems by (rule shuffle_trans)
  then show ?case
    using Cons.IH by simp
qed

lemma rehash_all_shuffle: "shuffle cfg t (rehash_all cfg hp t)"
  by (simp add: rehash_all_def rehash_with_workers_def fold_lock_and_rehash_shuffle shuffle_refl)

lemma check_resize_validity_cases:
  assumes "hashpower t = hp"
  shows "check_resize_validity cfg ar hp n t = Inl MaxHashpowerExceeded \<or>
         check_resize_validity cfg ar hp n t = Inl LoadFactorTooLow \<or>
         check_resize_validity cfg ar hp n t = Inr ok"
  using assms by (simp add: check_resize_validity_def)

lemma cuckoo_fast_double_error:
  assumes "cuckoo_fast_double cfg ar hp t = (Inl e, t')" and "hashpower t = hp"
  shows "t' = t \<and> check_resize_validity cfg ar hp (hp + 1) t = Inl e"
  using assms check_resize_validity_cases[OF assms(2), of cfg ar "hp + 1"]
  by (auto simp add: cuckoo_fast_double_def Let_def split: sum.splits if_splits)

lemma slot_keys_empty [simp]: "slot_keys (replicate n None) = []"
  by (simp add: slot_keys_def)

lemma double_size_grow:
  assumes "table_shape cfg t"
  shows "table_shape cfg (double_size cfg (maybe_resize_locks t))"
    and "table_keys (double_size cfg (maybe_resize_locks t)) = table_keys t"
    and "table_size (double_size cfg (maybe_resize_locks t)) = table_size t"
    and "hashpower (double_size cfg (maybe_resize_locks t)) = hashpower t + 1"
    and "minimum_load_factor (double_size cfg (maybe_resize_locks t)) = minimum_load_factor t"
    and "maximum_hashpower (double_size cfg (maybe_resize_locks t)) = maximum_hashpower t"
proof -
  show "table_shape cfg (double_size cfg (maybe_resize_locks t))"
    using assms
    by (auto simp add: table_shape_def double_size_def maybe_resize_locks_def min_def
        kMaxNumLocksPow_def list_all_iff)
  show "table_keys (double_size cfg (maybe_resize_locks t)) = table_keys t"
    by (auto simp add: table_keys_def double_size_def maybe_resize_locks_def)
  show "table_size (double_size cfg (maybe_resize_locks t)) = table_size t"
    by (simp add: table_size_sum double_size_def maybe_resize_locks_def sum_list_replicate)
  show "hashpower (double_size cfg (maybe_resize_locks t)) = hashpower t + 1"
    "minimum_load_factor (double_size cfg (maybe_resize_locks t)) = minimum_load_factor t"
    "maximum_hashpower (double_size cfg (maybe_resize_locks t)) = maximum_hashpower t"
    by (simp_all add: double_size_def maybe_resize_locks_def)
qed

section \<open>Doubling keeps the content\<close>

lemma eager_move_kept:
  fixes cfg :: "'k config" and t :: "('k, 'v) table"
  assumes Q: "kept cfg t0 t \<and> hashpower t = hp + 1"
    and hp: "hp < kMaxNumLocksPow" and i: "i < 2 ^ hp"
  shows "kept cfg t0
           (move_bucket cfg hp (of_nat i) (of_nat i) (hashsize hp + of_nat i)
              (\<lambda>old_bucket_slot t''.
                  add_counter (hashsize hp + of_nat i) 1
                    (add_counter (of_nat i) (- 1)
                      (set_bucket (of_nat i)
                        (eraseKV (get_bucket t'' (of_nat i)) old_bucket_slot) t'')))
              t) \<and>
         hashpower
           (move_bucket cfg hp (of_nat i) (of_nat i) (hashsize hp + of_nat i)
              (\<lambda>old_bucket_slot t''.
                  add_counter (hashsize hp + of_nat i) 1
                    (add_counter (of_nat i) (- 1)
                      (set_bucket (of_nat i)
                        (eraseKV (get_bucket t'' (of_nat i)) old_bucket_slot) t'')))
              t) = hp + 1"
proof (rule move_bucket_induct[where Q = "\<lambda>t'. kept cfg t0 t' \<and> hashpower t' = hp + 1"])
  show "kept cfg t0 t \<and> hashpower t = hp + 1" by (rule Q)
next
  fix t' :: "('k, 'v) table" and s n
  assume a: "kept cfg t0 t' \<and> hashpower t' = hp + 1" "s < slot_per_bucket cfg"
    "occupied (get_bucket t' (of_nat i)) s"
  define old :: size_type where "old = of_nat i"
  define new :: size_type where "new = hashsize hp + of_nat i"
  define m where "m = move_pair old s new n t'"
  have hp64: "hp < 64" using hp by (simp add: kMaxNumLocksPow_def)
  have shape: "table_shape cfg t'" using a(1) by (simp add: kept_def)
  have lenb: "length (buckets t') = 2 ^ (hp + 1)"
    using shape a(1) by (simp add: table_shape_def)
  have lenl: "length (locks t') = 2 ^ (hp + 1)"
    using shape a(1) hp by (simp add: table_shape_def min_def)
  have uold: "unat old = i"
    unfolding old_def using i hp64 by (rule unat_of_nat_small)
  have unew: "unat new = 2 ^ hp + i"
    unfolding new_def using hp64 i by (rule unat_upper_index)
  have old_in: "unat old < length (buckets t')"
    using uold i lenb by simp
  have st: "steady t' m"
    unfolding m_def by (rule steady_move_pair)
  have shape_m: "table_shape cfg m"
    using st shape by (rule steady_shape)
  have "length (get_bucket t' old) = slot_per_bucket cfg"
    using shape old_in by (rule shape_bucket_length)
  then have keys_m: "table_keys m \<subseteq> table_keys t'"
    unfolding m_def using old_in a(2,3)
    by (intro table_keys_move_pair) (simp_all add: old_def)
  have size_m: "table_size m = table_size t'"
    using st by (rule steady_table_size)
  have l_old: "unat old < length (locks m)"
    using uold i lenl by (simp add: m_def)
  have l_new: "unat new < length (locks (add_counter old (- 1) m))"
    using unew i lenl by (simp add: m_def)
  have size: "table_size (add_counter new 1 (add_counter old (- 1) m)) = table_size t'"
    using table_size_add_counter[OF l_new, of 1] table_size_add_counter[OF l_old, of "- 1"]
      size_m by simp
  have eq: "add_counter (hashsize hp + of_nat i) 1
          (add_counter (of_nat i) (- 1)
            (set_bucket (of_nat i)
              (eraseKV
                (get_bucket
                  (set_bucket (hashsize hp + of_nat i)
                    (setKV (get_bucket t' (hashsize hp + of_nat i)) n
                      (slot_partial (get_bucket t' (of_nat i)) s)
                      (slot_key (get_bucket t' (of_nat i)) s)
                      (slot_mapped (get_bucket t' (of_nat i)) s))
                    t')
                  (of_nat i))
                s)
              (set_bucket (hashsize hp + of_nat i)
                (setKV (get_bucket t' (hashsize hp + of_nat i)) n
                  (slot_partial (get_bucket t' (of_nat i)) s)
                  (slot_key (get_bucket t' (of_nat i)) s)
                  (slot_mapped (get_bucket t' (of_nat i)) s))
                t'))) = add_counter new 1 (add_counter old (- 1) m)"
    by (simp add: m_def move_pair_def Let_def old_def new_def)
  have "kept cfg t0 (add_counter new 1 (add_counter old (- 1) m)) \<and>
        hashpower (add_counter new 1 (add_counter old (- 1) m)) = hp + 1"
    using a(1) shape_m keys_m size st by (auto simp add: kept_def steady_def)
  then show "kept cfg t0
          (add_counter (hashsize hp + of_nat i) 1
            (add_counter (of_nat i) (- 1)
              (set_bucket (of_nat i)
                (eraseKV
                  (get_bucket
                    (set_bucket (hashsize hp + of_nat i)
                      (setKV (get_bucket t' (hashsize hp + of_nat i)) n
                        (slot_partial (get_bucket t' (of_nat i)) s)
                        (slot_key (get_bucket t' (of_nat i)) s)
                        (slot_mapped (get_bucket t' (of_nat i)) s))
                      t')
                    (of_nat i))
                  s)
                (set_bucket (hashsize hp + of_nat i)
                  (setKV (get_bucket t' (hashsize hp + of_nat i)) n
                    (slot_partial (get_bucket t' (of_nat i)) s)
                    (slot_key (get_bucket t' (of_nat i)) s)
                    (slot_mapped (get_bucket t' (of_nat i)) s))
                  t')))) \<and>
         hashpower
          (add_counter (hashsize hp + of_nat i) 1
            (add_counter (of_nat i) (- 1)
              (set_bucket (of_nat i)
                (eraseKV
                  (get_bucket
                    (set_bucket (hashsize hp + of_nat i)
                      (setKV (get_bucket t' (hashsize hp + of_nat i)) n
                        (slot_partial (get_bucket t' (of_nat i)) s)
                        (slot_key (get_bucket t' (of_nat i)) s)
                        (slot_mapped (get_bucket t' (of_nat i)) s))
                      t')
                    (of_nat i))
                  s)
                (set_bucket (hashsize hp + of_nat i)
                  (setKV (get_bucket t' (hashsize hp + of_nat i)) n
                    (slot_partial (get_bucket t' (of_nat i)) s)
                    (slot_key (get_bucket t' (of_nat i)) s)
                    (slot_mapped (get_bucket t' (of_nat i)) s))
                  t')))) = hp + 1"
    by (simp only: eq)
qed

lemma cuckoo_fast_double_ok:
  fixes cfg :: "'k config" and t :: "('k, 'v) table"
  assumes fd: "cuckoo_fast_double cfg ar hp t = (Inr st, t')" and hp: "hashpower t = hp"
    and shape: "table_shape cfg t"
  shows "st = ok \<and> kept cfg t t' \<and> hashpower t' = hp + 1"
proof -
  have crv: "check_resize_validity cfg ar hp (hp + 1) t = Inr ok"
    using fd check_resize_validity_cases[OF hp, of cfg ar "hp + 1"]
    by (auto simp add: cuckoo_fast_double_def Let_def)
  define ta where "ta = rehash_all cfg hp t"
  define tc where "tc = double_size cfg (maybe_resize_locks ta)"
  have res: "st = ok" "t' =
      (if hp < kMaxNumLocksPow
       then fold (\<lambda>old_bucket_ind t'.
                   move_bucket cfg hp (of_nat old_bucket_ind) (of_nat old_bucket_ind)
                     (hashsize hp + of_nat old_bucket_ind)
                     (\<lambda>old_bucket_slot t''.
                         add_counter (hashsize hp + of_nat old_bucket_ind) 1
                           (add_counter (of_nat old_bucket_ind) (- 1)
                             (set_bucket (of_nat old_bucket_ind)
                               (eraseKV (get_bucket t'' (of_nat old_bucket_ind))
                                  old_bucket_slot) t'')))
                     t')
              [0..<unat (hashsize hp)] tc
       else fold (\<lambda>i t'. set_migrated (of_nat i) False t') [0..<length (locks tc)] tc)"
    using fd crv
    by (auto simp add: cuckoo_fast_double_def Let_def ta_def tc_def split: if_splits)
  have sh_a: "shuffle cfg t ta"
    unfolding ta_def by (rule rehash_all_shuffle)
  have kept_a: "kept cfg t ta"
    using sh_a shape by (rule shuffle_kept)
  have shape_a: "table_shape cfg ta"
    using kept_a by (simp add: kept_def)
  have hp_a: "hashpower ta = hp"
    using shuffle_steady[OF sh_a] hp by (simp add: steady_def)
  have kept_c: "kept cfg t tc"
    using kept_a double_size_grow[OF shape_a] by (simp add: kept_def tc_def)
  have hp_c: "hashpower tc = hp + 1"
    using double_size_grow(4)[OF shape_a] hp_a by (simp add: tc_def)
  have "kept cfg t t' \<and> hashpower t' = hp + 1"
  proof (cases "hp < kMaxNumLocksPow")
    case True
    then have hp64: "hp < 64" by (simp add: kMaxNumLocksPow_def)
    have "kept cfg t
            (fold (\<lambda>old_bucket_ind t'.
                   move_bucket cfg hp (of_nat old_bucket_ind) (of_nat old_bucket_ind)
                     (hashsize hp + of_nat old_bucket_ind)
                     (\<lambda>old_bucket_slot t''.
                         add_counter (hashsize hp + of_nat old_bucket_ind) 1
                           (add_counter (of_nat old_bucket_ind) (- 1)
                             (set_bucket (of_nat old_bucket_ind)
                               (eraseKV (get_bucket t'' (of_nat old_bucket_ind))
                                  old_bucket_slot) t'')))
                     t')
              [0..<unat (hashsize hp)] tc) \<and>
          hashpower
            (fold (\<lambda>old_bucket_ind t'.
                   move_bucket cfg hp (of_nat old_bucket_ind) (of_nat old_bucket_ind)
                     (hashsize hp + of_nat old_bucket_ind)
                     (\<lambda>old_bucket_slot t''.
                         add_counter (hashsize hp + of_nat old_bucket_ind) 1
                           (add_counter (of_nat old_bucket_ind) (- 1)
                             (set_bucket (of_nat old_bucket_ind)
                               (eraseKV (get_bucket t'' (of_nat old_bucket_ind))
                                  old_bucket_slot) t'')))
                     t')
              [0..<unat (hashsize hp)] tc) = hp + 1"
    proof (rule fold_invariant[where Q = "\<lambda>i. i < 2 ^ hp"
          and P = "\<lambda>s. kept cfg t s \<and> hashpower s = hp + 1"])
      show "\<And>x. x \<in> set [0..<unat (hashsize hp)] \<Longrightarrow> x < 2 ^ hp"
        by (simp add: unat_hashsize[OF hp64])
      show "kept cfg t tc \<and> hashpower tc = hp + 1"
        using kept_c hp_c by simp
      show "\<And>x s. x < 2 ^ hp \<Longrightarrow> kept cfg t s \<and> hashpower s = hp + 1 \<Longrightarrow>
          kept cfg t
            (move_bucket cfg hp (of_nat x) (of_nat x) (hashsize hp + of_nat x)
              (\<lambda>old_bucket_slot t''.
                  add_counter (hashsize hp + of_nat x) 1
                    (add_counter (of_nat x) (- 1)
                      (set_bucket (of_nat x)
                        (eraseKV (get_bucket t'' (of_nat x)) old_bucket_slot) t'')))
              s) \<and>
          hashpower
            (move_bucket cfg hp (of_nat x) (of_nat x) (hashsize hp + of_nat x)
              (\<lambda>old_bucket_slot t''.
                  add_counter (hashsize hp + of_nat x) 1
                    (add_counter (of_nat x) (- 1)
                      (set_bucket (of_nat x)
                        (eraseKV (get_bucket t'' (of_nat x)) old_bucket_slot) t'')))
              s) = hp + 1"
        using True by (rule eager_move_kept[rotated])
    qed
    then show ?thesis
      using True by (simp only: res(2) if_True)
  next
    case False
    have "kept cfg t (fold (\<lambda>i t'. set_migrated (of_nat i) False t') [0..<length (locks tc)] tc) \<and>
          hashpower (fold (\<lambda>i t'. set_migrated (of_nat i) False t') [0..<length (locks tc)] tc)
            = hp + 1"
    proof (rule fold_invariant[where Q = "\<lambda>i. True"
          and P = "\<lambda>s. kept cfg t s \<and> hashpower s = hp + 1"])
      show "kept cfg t tc \<and> hashpower tc = hp + 1"
        using kept_c hp_c by simp
      show "\<And>x s. True \<Longrightarrow> kept cfg t s \<and> hashpower s = hp + 1 \<Longrightarrow>
          kept cfg t (set_migrated (of_nat x) False s) \<and>
          hashpower (set_migrated (of_nat x) False s) = hp + 1"
        by (simp add: kept_def)
    qed simp
    then show ?thesis
      using False by (simp only: res(2) if_False)
  qed
  then show ?thesis
    using res(1) by simp
qed

section \<open>The loop of the insertion\<close>

lemma snapshot_holds_two:
  assumes "snapshot_and_lock_two cfg (hashed_key cfg key) t = (b, t0)"
    and "table_shape cfg t"
  shows "holds_two cfg key b t0" and "shuffle cfg t t0"
proof -
  note f = snapshot_facts[OF assms(1)]
  note m = snapshot_migrated[OF assms]
  show sh: "shuffle cfg t t0"
    using f(1) by (rule stripe_steps_shuffle)
  have st: "steady t t0" using sh by (rule shuffle_steady)
  show "holds_two cfg key b t0"
    using f(2,3,4) m shuffle_shape[OF sh assms(2)] steady_indices[OF st, of cfg key]
    by (simp add: holds_two_def)
qed

lemma cuckoo_insert_loop_facts_aux:
  fixes cfg :: "'k config" and t :: "('k, 'v) table"
  assumes "cuckoo_insert_loop cfg hv b key t = Some r"
  shows "hv = hashed_key cfg key \<longrightarrow> holds_two cfg key b t \<longrightarrow> 0 < slot_per_bucket cfg \<longrightarrow>
         kept cfg t (snd r) \<and>
         (\<forall>pos b1. fst r = Inr (pos, b1) \<longrightarrow>
            holds_two cfg key b1 (snd r) \<and> position_ok cfg key pos b1 (snd r))"
proof (rule cuckoo_insert_loop.raw_induct[where P = "\<lambda>cfg hv b key t r.
         hv = hashed_key cfg key \<longrightarrow> holds_two cfg key b t \<longrightarrow> 0 < slot_per_bucket cfg \<longrightarrow>
         kept cfg t (snd r) \<and>
         (\<forall>pos b1. fst r = Inr (pos, b1) \<longrightarrow>
            holds_two cfg key b1 (snd r) \<and> position_ok cfg key pos b1 (snd r))", OF _ assms])
  fix f and cfg :: "'k config" and hv b key and t :: "('k, 'v) table" and r
  assume IH: "\<And>cfg hv b key t y. f cfg hv b key t = Some y \<Longrightarrow>
         hv = hashed_key cfg key \<longrightarrow> holds_two cfg key b t \<longrightarrow> 0 < slot_per_bucket cfg \<longrightarrow>
         kept cfg t (snd y) \<and>
         (\<forall>pos b1. fst y = Inr (pos, b1) \<longrightarrow>
            holds_two cfg key b1 (snd y) \<and> position_ok cfg key pos b1 (snd y))"
    and body: "(let hp = hashpower t in
     case cuckoo_insert cfg hv b key t of
       None \<Rightarrow> None
     | Some (pos, b1, t1) \<Rightarrow>
         if pos_status pos = ok \<or> pos_status pos = failure_key_duplicated
         then Some (Inr (pos, b1), t1)
         else if pos_status pos = failure_table_full
         then
           (case cuckoo_fast_double cfg True hp t1 of
              (Inl e, t2) \<Rightarrow> Some (Inl e, t2)
            | (Inr st, t2) \<Rightarrow>
                (case snapshot_and_lock_two cfg hv t2 of
                   (b3, t3) \<Rightarrow> f cfg hv b3 key t3))
         else if pos_status pos = failure_under_expansion
         then
           (case snapshot_and_lock_two cfg hv t1 of
              (b3, t3) \<Rightarrow> f cfg hv b3 key t3)
         else None) = Some r"
  show "hv = hashed_key cfg key \<longrightarrow> holds_two cfg key b t \<longrightarrow> 0 < slot_per_bucket cfg \<longrightarrow>
         kept cfg t (snd r) \<and>
         (\<forall>pos b1. fst r = Inr (pos, b1) \<longrightarrow>
            holds_two cfg key b1 (snd r) \<and> position_ok cfg key pos b1 (snd r))"
  proof (intro impI)
    assume hv: "hv = hashed_key cfg key" and h: "holds_two cfg key b t"
      and S: "0 < slot_per_bucket cfg"
    have shape: "table_shape cfg t" using h by (simp add: holds_two_def)
    from body obtain pos b1 t1 where ci: "cuckoo_insert cfg hv b key t = Some (pos, b1, t1)"
      by (cases "cuckoo_insert cfg hv b key t") (auto simp add: Let_def)
    from cuckoo_insert_facts[OF ci[unfolded hv] h S]
    have steps: "(table_step cfg)\<^sup>*\<^sup>* t t1"
      and good: "pos_status pos = failure_table_full \<or>
          holds_two cfg key b1 t1 \<and> position_ok cfg key pos b1 t1"
      by simp_all
    have sh1: "shuffle cfg t t1" using steps by (rule table_steps_shuffle)
    have kept1: "kept cfg t t1" using sh1 shape by (rule shuffle_kept)
    have shape1: "table_shape cfg t1" using kept1 by (simp add: kept_def)
    have hp1: "hashpower t1 = hashpower t"
      using shuffle_steady[OF sh1] by (simp add: steady_def)
    show "kept cfg t (snd r) \<and>
         (\<forall>pos b1. fst r = Inr (pos, b1) \<longrightarrow>
            holds_two cfg key b1 (snd r) \<and> position_ok cfg key pos b1 (snd r))"
    proof (cases "pos_status pos = failure_table_full")
      case False
      then have st: "pos_status pos = ok \<or> pos_status pos = failure_key_duplicated"
        using good by (auto simp add: position_ok_def split: if_splits)
      then have "r = (Inr (pos, b1), t1)"
        using body ci by (simp add: Let_def)
      then show ?thesis
        using kept1 good False by simp
    next
      case True
      obtain res t2 where fd: "cuckoo_fast_double cfg True (hashpower t) t1 = (res, t2)"
        by (cases "cuckoo_fast_double cfg True (hashpower t) t1")
      show ?thesis
      proof (cases res)
        case (Inl e)
        then have "r = (Inl e, t2)"
          using body ci True fd by (simp add: Let_def)
        moreover have "t2 = t1"
          using cuckoo_fast_double_error[OF fd[unfolded Inl] hp1] by simp
        ultimately show ?thesis
          using kept1 by simp
      next
        case (Inr st)
        from cuckoo_fast_double_ok[OF fd[unfolded Inr] hp1 shape1]
        have kept2: "kept cfg t1 t2" by simp
        have shape2: "table_shape cfg t2" using kept2 by (simp add: kept_def)
        obtain b3 t3 where sn: "snapshot_and_lock_two cfg hv t2 = (b3, t3)"
          by (cases "snapshot_and_lock_two cfg hv t2")
        note s3 = snapshot_holds_two[OF sn[unfolded hv] shape2]
        have kept3: "kept cfg t2 t3" using s3(2) shape2 by (rule shuffle_kept)
        have call: "f cfg hv b3 key t3 = Some r"
          using body ci True fd Inr sn by (simp add: Let_def)
        from IH[OF call] hv s3(1) S
        have "kept cfg t3 (snd r) \<and>
         (\<forall>pos b1. fst r = Inr (pos, b1) \<longrightarrow>
            holds_two cfg key b1 (snd r) \<and> position_ok cfg key pos b1 (snd r))"
          by simp
        then show ?thesis
          using kept_trans[OF kept1 kept_trans[OF kept2 kept3]] kept_trans by blast
      qed
    qed
  qed
qed

lemma cuckoo_insert_loop_facts:
  fixes cfg :: "'k config" and t :: "('k, 'v) table"
  assumes "cuckoo_insert_loop cfg (hashed_key cfg key) b key t = Some (res, t')"
    and "holds_two cfg key b t" and "0 < slot_per_bucket cfg"
  shows "kept cfg t t'"
    and "res = Inr (pos, b1) \<Longrightarrow> holds_two cfg key b1 t' \<and> position_ok cfg key pos b1 t'"
  using cuckoo_insert_loop_facts_aux[OF assms(1)] assms(2,3) by simp_all

section \<open>Writing the pair\<close>

lemma table_shape_set_bucket:
  assumes "table_shape cfg t" and "length b' = slot_per_bucket cfg"
  shows "table_shape cfg (set_bucket i b' t)"
proof (cases "unat i < length (buckets t)")
  case True
  then show ?thesis
    using assms by (auto simp add: table_shape_def list_all_length nth_list_update)
next
  case False
  then show ?thesis
    using assms(1) by (simp add: set_bucket_beyond)
qed

lemma is_migrated_add_counter [simp]:
  "is_migrated (locks (add_counter l d t) ! n) = is_migrated (locks t ! n)"
proof (cases "unat l < length (locks t)")
  case True
  then show ?thesis by (simp add: add_counter_def nth_list_update)
next
  case False
  then show ?thesis by (simp add: add_counter_def list_update_beyond not_less)
qed

lemma add_to_bucket_fields [simp]:
  "hashpower (add_to_bucket l i sl p k v t) = hashpower t"
  "is_migrated (locks (add_to_bucket l i sl p k v t) ! n) = is_migrated (locks t ! n)"
  "length (locks (add_to_bucket l i sl p k v t)) = length (locks t)"
  by (simp_all add: add_to_bucket_def)

lemma table_shape_add_to_bucket:
  assumes "table_shape cfg t" and "unat i < length (buckets t)"
  shows "table_shape cfg (add_to_bucket l i sl p k v t)"
proof -
  have "length (setKV (get_bucket t i) sl p k v) = slot_per_bucket cfg"
    using shape_bucket_length[OF assms] by simp
  then show ?thesis
    using assms(1) by (simp add: add_to_bucket_def table_shape_set_bucket)
qed

lemma get_bucket_add_to_bucket:
  "get_bucket (add_to_bucket l i sl p k v t) j =
     (if i = j \<and> unat i < length (buckets t) then (get_bucket t i)[sl := Some (p, k, v)]
      else get_bucket t j)"
  by (simp add: add_to_bucket_def get_bucket_set_bucket setKV_def word_unat_eq_iff)

lemma slot_matches_cong:
  "b ! i = b' ! i \<Longrightarrow> slot_matches cfg b p key i = slot_matches cfg b' p key i"
  by (simp add: slot_matches_def occupied_def slot_partial_def slot_key_def)

lemma take_two_id:
  assumes "is_migrated (locks t ! unat (lock_ind (first_index cfg key t)))"
    and "is_migrated (locks t ! unat (lock_ind (second_index cfg key t)))"
  shows "take_two cfg key t = t"
  using assms by (simp add: take_two_def lock_and_rehash_id)

lemma stored_value_add_to_bucket:
  fixes cfg :: "'k config" and t1 :: "('k, 'v) table"
  assumes h: "holds_two cfg key b1 t1" and po: "position_ok cfg key pos b1 t1"
    and ok: "pos_status pos = ok"
  shows "stored_value cfg key
           (add_to_bucket l (pos_index pos) (pos_slot pos) (partial (hashed_key cfg key))
              key val t1) = Some val"
proof -
  define p where "p = partial (hashed_key cfg key)"
  define pi where "pi = pos_index pos"
  define ps where "ps = pos_slot pos"
  define t' where "t' = add_to_bucket l pi ps p key val t1"
  define i1 where "i1 = first_index cfg key t1"
  define i2 where "i2 = second_index cfg key t1"
  have shape: "table_shape cfg t1" and b1: "tb_i1 b1 = i1" "tb_i2 b1 = i2"
    using h by (simp_all add: holds_two_def i1_def i2_def)
  have idx: "first_index cfg key t' = i1" "second_index cfg key t' = i2"
    by (simp_all add: first_index_def second_index_def t'_def i1_def i2_def)
  have pi: "pi = i1 \<or> pi = i2" and ps: "ps < slot_per_bucket cfg"
    and nk: "\<not> bucket_has_key cfg (get_bucket t1 i1) p key"
      "\<not> bucket_has_key cfg (get_bucket t1 i2) p key"
    using po ok b1 by (simp_all add: position_ok_def pi_def ps_def p_def)
  have rng: "unat i1 < length (buckets t1)" "unat i2 < length (buckets t1)"
    using indices_in_range(1,2)[OF shape, of key] by (simp_all add: i1_def i2_def)
  have pi_in: "unat pi < length (buckets t1)"
    using pi rng by auto
  have len: "length (get_bucket t1 pi) = slot_per_bucket cfg"
    using shape pi_in by (rule shape_bucket_length)
  have gb: "get_bucket t' j = (if pi = j then (get_bucket t1 pi)[ps := Some (p, key, val)]
                               else get_bucket t1 j)" for j
    using pi_in by (simp add: t'_def get_bucket_add_to_bucket)
  have here: "get_bucket t' pi ! ps = Some (p, key, val)"
    using len ps by (simp add: gb)
  then have "slot_matches cfg (get_bucket t' pi) p key ps"
    by (simp add: slot_matches_def occupied_def slot_partial_def slot_key_def)
  then have "bucket_has_key cfg (get_bucket t' pi) p key"
    using ps by (auto simp add: bucket_has_key_def)
  then have found: "pos_status (cuckoo_find cfg t' key p i1 i2) = ok"
    using pi by (auto simp add: cuckoo_find_status)
  define fp where "fp = cuckoo_find cfg t' key p i1 i2"
  from cuckoo_find_found[OF found]
  have fp: "pos_index fp = i1 \<or> pos_index fp = i2" "pos_slot fp < slot_per_bucket cfg"
    "slot_matches cfg (get_bucket t' (pos_index fp)) p key (pos_slot fp)"
    by (simp_all add: fp_def)
  have "pos_index fp = pi \<and> pos_slot fp = ps"
  proof (rule ccontr)
    assume other: "\<not> (pos_index fp = pi \<and> pos_slot fp = ps)"
    have "get_bucket t' (pos_index fp) ! pos_slot fp = get_bucket t1 (pos_index fp) ! pos_slot fp"
      using other by (auto simp add: gb)
    from slot_matches_cong[OF this, of cfg p key] fp(3)
    have "slot_matches cfg (get_bucket t1 (pos_index fp)) p key (pos_slot fp)"
      by simp
    then have "bucket_has_key cfg (get_bucket t1 (pos_index fp)) p key"
      using fp(2) by (auto simp add: bucket_has_key_def)
    then show False
      using fp(1) nk by auto
  qed
  then have "slot_mapped (get_bucket t' (pos_index fp)) (pos_slot fp) = val"
    using here by (simp add: slot_mapped_def)
  then have "stored_value cfg key t' = Some val"
    using found by (simp add: stored_value_def Let_def idx fp_def p_def)
  then show ?thesis
    by (simp add: t'_def pi_def ps_def p_def)
qed

lemma holds_two_add_to_bucket:
  assumes h: "holds_two cfg key b1 t1"
    and i: "i = tb_i1 b1 \<or> i = tb_i2 b1"
  shows "holds_two cfg key b1 (add_to_bucket l i sl p k v t1)"
proof -
  have shape: "table_shape cfg t1"
    using h by (simp add: holds_two_def)
  have "unat i < length (buckets t1)"
    using i h indices_in_range(1,2)[OF shape, of key] by (auto simp add: holds_two_def)
  with shape have "table_shape cfg (add_to_bucket l i sl p k v t1)"
    by (rule table_shape_add_to_bucket)
  then show ?thesis
    using h by (auto simp add: holds_two_def first_index_def second_index_def)
qed

lemma read_value_holds_two:
  assumes "holds_two cfg key b t"
  shows "read_value cfg key t = Some (stored_value cfg key t, t)"
proof -
  have shape: "table_shape cfg t"
    using assms by (simp add: holds_two_def)
  have "take_two cfg key t = t"
    using assms by (intro take_two_id) (auto simp add: holds_two_def)
  then show ?thesis
    using read_value_eq[OF shape, of key] by simp
qed

section \<open>The outcomes of \<open>uprase_fn\<close>\<close>

lemma uprase_fn_cases:
  fixes cfg :: "'k config" and t :: "('k, 'v) table"
  assumes up: "uprase_fn cfg key fn val t = Some (res, t')"
    and shape: "table_shape cfg t" and S: "0 < slot_per_bucket cfg"
  obtains (raised) e where "res = Inl e" "kept cfg t t'"
  | (inserted) pos b1 t1 where "res = Inr True" "kept cfg t t1" "holds_two cfg key b1 t1"
      "position_ok cfg key pos b1 t1" "pos_status pos = ok"
      "t' = add_to_bucket (the (tb_lock1 b1)) (pos_index pos) (pos_slot pos)
              (partial (hashed_key cfg key)) key val t1"
  | (found) pos b1 t1 where "res = Inr False" "kept cfg t t1" "holds_two cfg key b1 t1"
      "position_ok cfg key pos b1 t1" "pos_status pos = failure_key_duplicated"
      "t' = (let fr = fn (slot_mapped (get_bucket t1 (pos_index pos)) (pos_slot pos));
                 t2 = set_mapped (pos_index pos) (pos_slot pos) (fst fr) t1
             in if snd fr
                then del_from_bucket (the (tb_lock1 b1)) (pos_index pos) (pos_slot pos) t2
                else t2)"
proof -
  define hv where "hv = hashed_key cfg key"
  obtain b t0 where sn: "snapshot_and_lock_two cfg hv t = (b, t0)"
    by (cases "snapshot_and_lock_two cfg hv t")
  note s0 = snapshot_holds_two[OF sn[unfolded hv_def] shape]
  have kept0: "kept cfg t t0"
    using s0(2) shape by (rule shuffle_kept)
  from up sn obtain lr t1 where loop: "cuckoo_insert_loop cfg hv b key t0 = Some (lr, t1)"
    by (cases "cuckoo_insert_loop cfg hv b key t0")
      (auto simp add: uprase_fn_def Let_def hv_def)
  note lf = cuckoo_insert_loop_facts[OF loop[unfolded hv_def] s0(1) S]
  have kept1: "kept cfg t t1"
    using kept0 lf(1) by (rule kept_trans)
  show thesis
  proof (cases lr)
    case (Inl e)
    then have "res = Inl e" "t' = t1"
      using up sn loop by (simp_all add: uprase_fn_def Let_def hv_def)
    then show thesis
      using kept1 raised by simp
  next
    case (Inr pb)
    obtain pos b1 where pb: "pb = (pos, b1)" by (cases pb)
    from lf(2)[of pos b1] Inr pb
    have h1: "holds_two cfg key b1 t1" and po: "position_ok cfg key pos b1 t1"
      by simp_all
    show thesis
    proof (cases "pos_status pos = ok")
      case True
      then have "res = Inr True"
        "t' = add_to_bucket (the (tb_lock1 b1)) (pos_index pos) (pos_slot pos)
              (partial (hashed_key cfg key)) key val t1"
        using up sn loop Inr pb by (simp_all add: uprase_fn_def Let_def hv_def)
      then show thesis
        using inserted kept1 h1 po True by blast
    next
      case False
      then have dup: "pos_status pos = failure_key_duplicated"
        using po by (simp add: position_ok_def)
      have "res = Inr False"
        "t' = (let fr = fn (slot_mapped (get_bucket t1 (pos_index pos)) (pos_slot pos));
                 t2 = set_mapped (pos_index pos) (pos_slot pos) (fst fr) t1
             in if snd fr
                then del_from_bucket (the (tb_lock1 b1)) (pos_index pos) (pos_slot pos) t2
                else t2)"
        using up sn loop Inr pb False
        by (auto simp add: uprase_fn_def Let_def hv_def split: if_splits)
      then show thesis
        using found kept1 h1 po dup by blast
    qed
  qed
qed

section \<open>Inserting a key that is there\<close>

lemma cuckoo_insert_dup:
  assumes "bucket_has_key cfg (get_bucket t (tb_i1 b)) (partial hv) key \<or>
           bucket_has_key cfg (get_bucket t (tb_i2 b)) (partial hv) key"
  shows "\<exists>pos. cuckoo_insert cfg hv b key t = Some (pos, b, t) \<and>
           pos_status pos = failure_key_duplicated \<and>
           (pos_index pos = tb_i1 b \<or> pos_index pos = tb_i2 b) \<and>
           pos_slot pos < slot_per_bucket cfg \<and>
           slot_matches cfg (get_bucket t (pos_index pos)) (partial hv) key (pos_slot pos)"
proof (cases "bucket_has_key cfg (get_bucket t (tb_i1 b)) (partial hv) key")
  case True
  have r1: "try_find_insert_bucket cfg (get_bucket t (tb_i1 b)) (partial hv) key =
              (False, try_read_from_bucket cfg (get_bucket t (tb_i1 b)) (partial hv) key)"
    using True by (rule tfib_dup)
  have "try_read_from_bucket cfg (get_bucket t (tb_i1 b)) (partial hv) key \<noteq> - 1"
    using True by (simp add: try_read_none_iff)
  from try_read_found[OF this] obtain r where
    r: "try_read_from_bucket cfg (get_bucket t (tb_i1 b)) (partial hv) key = int r"
      "r < slot_per_bucket cfg" "slot_matches cfg (get_bucket t (tb_i1 b)) (partial hv) key r"
    by blast
  have "cuckoo_insert cfg hv b key t =
          Some (\<lparr>pos_index = tb_i1 b, pos_slot = r, pos_status = failure_key_duplicated\<rparr>, b, t)"
    using r1 r(1) by (simp add: cuckoo_insert_def Let_def)
  then show ?thesis
    using r by simp
next
  case False
  then have hk2: "bucket_has_key cfg (get_bucket t (tb_i2 b)) (partial hv) key"
    using assms by simp
  have f1: "fst (try_find_insert_bucket cfg (get_bucket t (tb_i1 b)) (partial hv) key) = True"
    using False by (rule tfib_nodup_fst)
  have r2: "try_find_insert_bucket cfg (get_bucket t (tb_i2 b)) (partial hv) key =
              (False, try_read_from_bucket cfg (get_bucket t (tb_i2 b)) (partial hv) key)"
    using hk2 by (rule tfib_dup)
  have "try_read_from_bucket cfg (get_bucket t (tb_i2 b)) (partial hv) key \<noteq> - 1"
    using hk2 by (simp add: try_read_none_iff)
  from try_read_found[OF this] obtain r where
    r: "try_read_from_bucket cfg (get_bucket t (tb_i2 b)) (partial hv) key = int r"
      "r < slot_per_bucket cfg" "slot_matches cfg (get_bucket t (tb_i2 b)) (partial hv) key r"
    by blast
  have "cuckoo_insert cfg hv b key t =
          Some (\<lparr>pos_index = tb_i2 b, pos_slot = r, pos_status = failure_key_duplicated\<rparr>, b, t)"
    using f1 r2 r(1) by (simp add: cuckoo_insert_def Let_def)
  then show ?thesis
    using r by simp
qed

lemma snapshot_id:
  assumes "holds_two cfg key b t"
  shows "snd (snapshot_and_lock_two cfg (hashed_key cfg key) t) = t"
  using assms
  by (auto simp add: holds_two_def snapshot_and_lock_two_def lock_two_def Let_def
      first_index_def second_index_def lock_and_rehash_id)

lemma set_bucket_same [simp]: "set_bucket i (get_bucket t i) t = t"
  by (simp add: set_bucket_def get_bucket_def)

lemma set_mapped_same:
  assumes "occupied (get_bucket t i) sl"
  shows "set_mapped i sl (slot_mapped (get_bucket t i) sl) t = t"
proof -
  obtain x where x: "get_bucket t i ! sl = Some x"
    using assms by (auto simp add: occupied_def)
  have "Some (slot_partial (get_bucket t i) sl, slot_key (get_bucket t i) sl,
              slot_mapped (get_bucket t i) sl) = get_bucket t i ! sl"
    using x by (simp add: slot_partial_def slot_key_def slot_mapped_def)
  then have "(get_bucket t i)[sl := Some (slot_partial (get_bucket t i) sl,
                slot_key (get_bucket t i) sl, slot_mapped (get_bucket t i) sl)] = get_bucket t i"
    by (simp only: list_update_id)
  then show ?thesis
    by (simp add: set_mapped_def Let_def)
qed

lemma stored_value_has_key:
  assumes "stored_value cfg key t = Some v"
  shows "bucket_has_key cfg (get_bucket t (first_index cfg key t))
           (partial (hashed_key cfg key)) key \<or>
         bucket_has_key cfg (get_bucket t (second_index cfg key t))
           (partial (hashed_key cfg key)) key"
  using assms cuckoo_find_status[of cfg t key "partial (hashed_key cfg key)"
      "first_index cfg key t" "second_index cfg key t"]
  by (simp add: stored_value_def Let_def split: if_splits)

lemma insert_existing:
  fixes cfg :: "'k config" and t :: "('k, 'v) table"
  assumes h: "holds_two cfg key b t" and sv: "stored_value cfg key t = Some v"
  shows "insert_tbl cfg key val t = Some (Inr False, t)"
proof -
  define hv where "hv = hashed_key cfg key"
  obtain b' t0 where sn: "snapshot_and_lock_two cfg hv t = (b', t0)"
    by (cases "snapshot_and_lock_two cfg hv t")
  have t0: "t0 = t"
    using snapshot_id[OF h] sn by (simp add: hv_def)
  have shape: "table_shape cfg t"
    using h by (simp add: holds_two_def)
  have h': "holds_two cfg key b' t"
    using snapshot_holds_two(1)[OF sn[unfolded hv_def] shape] t0 by simp
  have "bucket_has_key cfg (get_bucket t (tb_i1 b')) (partial hv) key \<or>
        bucket_has_key cfg (get_bucket t (tb_i2 b')) (partial hv) key"
    using stored_value_has_key[OF sv] h' by (simp add: holds_two_def hv_def)
  from cuckoo_insert_dup[OF this] obtain pos where
    pos: "cuckoo_insert cfg hv b' key t = Some (pos, b', t)"
      "pos_status pos = failure_key_duplicated"
      "slot_matches cfg (get_bucket t (pos_index pos)) (partial hv) key (pos_slot pos)"
    by blast
  have loop: "cuckoo_insert_loop cfg hv b' key t = Some (Inr (pos, b'), t)"
    using pos(1,2) by (subst cuckoo_insert_loop.simps) (simp add: Let_def)
  have occ: "occupied (get_bucket t (pos_index pos)) (pos_slot pos)"
    using pos(3) by (simp add: slot_matches_def)
  show ?thesis
    using sn t0 loop pos(2) set_mapped_same[OF occ]
    by (simp add: insert_tbl_def upsert_def uprase_fn_def Let_def hv_def)
qed

section \<open>Insert, then find\<close>



text \<open>
  Claim C1. On a table of the right shape, when \<open>insert(k, v)\<close> returns \<open>true\<close>,
  \<open>find(k)\<close> on the table it leaves returns \<open>v\<close> (and leaves that table as it is); a
  further \<open>insert(k, v')\<close> returns \<open>false\<close> and leaves the same table again, on which
  \<open>find(k)\<close> therefore still returns \<open>v\<close>.
\<close>

theorem insert_then_find:
  fixes cfg :: "'k config" and t :: "('k, 'v) table"
  assumes "table_shape cfg t" and "0 < slot_per_bucket cfg"
    and "insert_tbl cfg key val t = Some (Inr True, t')"
  shows "find_value cfg key t' = Some (Inr val, t') \<and>
         insert_tbl cfg key val' t' = Some (Inr False, t')"
proof -
  have up: "uprase_fn cfg key (\<lambda>v. (v, False)) val t = Some (Inr True, t')"
    using assms(3) by (simp add: insert_tbl_def upsert_def)
  from up assms(1,2) show ?thesis
  proof (cases rule: uprase_fn_cases)
    case (raised e)
    then show ?thesis by simp
  next
    case (found pos b1 t1)
    then show ?thesis by simp
  next
    case (inserted pos b1 t1)
    have idx: "pos_index pos = tb_i1 b1 \<or> pos_index pos = tb_i2 b1"
      using inserted(4) by (simp add: position_ok_def)
    have h': "holds_two cfg key b1 t'"
      unfolding inserted(6) using inserted(3) idx by (rule holds_two_add_to_bucket)
    have sv: "stored_value cfg key t' = Some val"
      unfolding inserted(6) using inserted(3,4,5) by (rule stored_value_add_to_bucket)
    have "find_value cfg key t' = Some (Inr val, t')"
      using read_value_holds_two[OF h'] sv by (simp add: find_value_def)
    moreover have "insert_tbl cfg key val' t' = Some (Inr False, t')"
      using h' sv by (rule insert_existing)
    ultimately show ?thesis by simp
  qed
qed

lemma ex_insert: "insert_tbl ex_cfg 0 10 ex_empty = Some (Inr True, ex_one)"
  by (simp add: ex_cfg_def ex_empty_def ex_one_def hash_defs lock_defs Let_def bucket_defs scan_defs
      insert_tbl_def upsert_def uprase_fn_def cuckoo_insert_loop.simps cuckoo_insert_def)

lemma ex_shape: "table_shape ex_cfg ex_empty" "0 < slot_per_bucket ex_cfg"
  by (simp_all add: table_shape_def ex_cfg_def ex_empty_def kMaxNumLocksPow_def)

theorem insert_then_find_witness:
  "table_shape ex_cfg ex_empty \<and> 0 < slot_per_bucket ex_cfg \<and>
   insert_tbl ex_cfg 0 10 ex_empty = Some (Inr True, ex_one) \<and>
   find_value ex_cfg 0 ex_one = Some (Inr 10, ex_one) \<and>
   insert_tbl ex_cfg 0 11 ex_one = Some (Inr False, ex_one)"
  using insert_then_find[OF ex_shape ex_insert, of 11] ex_shape ex_insert by simp

section \<open>\<open>upsert\<close> and \<open>insert_or_assign\<close>\<close>





end
